theory Spec2Isabelle
  imports Complex_Main
begin

section \<open>JavaScript values\<close>

text \<open>
  Numbers are IEEE doubles. The program only stores and compares them, so a finite
  double is modelled by the rational it denotes; the three non-finite doubles are
  separate constructors. Objects and arrays do not occur among the values modelled here.
\<close>

datatype jsnum = Fin rat | PosInf | NegInf | NaN

datatype jsval = JUndefined | JNull | JBool bool | JNum jsnum | JStr string

text \<open>The relational operator \<open><=\<close> on two numbers: false as soon as one side is NaN.\<close>

fun num_le :: "jsnum \<Rightarrow> jsnum \<Rightarrow> bool" where
  "num_le NaN _ = False"
| "num_le _ NaN = False"
| "num_le NegInf _ = True"
| "num_le _ PosInf = True"
| "num_le (Fin a) (Fin b) = (a \<le> b)"
| "num_le (Fin _) NegInf = False"
| "num_le PosInf (Fin _) = False"
| "num_le PosInf NegInf = False"

text \<open>The relational operator \<open><\<close> on two numbers.\<close>

fun num_lt :: "jsnum \<Rightarrow> jsnum \<Rightarrow> bool" where
  "num_lt NaN _ = False"
| "num_lt _ NaN = False"
| "num_lt (Fin a) (Fin b) = (a < b)"
| "num_lt NegInf NegInf = False"
| "num_lt NegInf _ = True"
| "num_lt PosInf _ = False"
| "num_lt (Fin _) PosInf = True"
| "num_lt (Fin _) NegInf = False"

fun Number_isFinite :: "jsnum \<Rightarrow> bool" where
  "Number_isFinite (Fin _) = True"
| "Number_isFinite _ = False"

text \<open>Strict equality \<open>===\<close>: equality of primitive values, except that NaN differs from itself.\<close>

definition strict_eq :: "jsval \<Rightarrow> jsval \<Rightarrow> bool" where
  "strict_eq a b = (a = b \<and> a \<noteq> JNum NaN)"

text \<open>
  Auction identifiers are strings or numbers. \<open>String(id)\<close> leaves a string as it is and
  prints an integer-valued number in decimal (what JavaScript does for every integer of
  magnitude below \<open>10^21\<close>). An identifier \<open>IdNum n\<close> stands for such a number; larger
  numbers, which \<open>String\<close> prints with an exponent, and numbers with a fractional part are
  not modelled. The routes and the seeds only use string identifiers.
\<close>

datatype jsid = IdStr string | IdNum int

fun decimal :: "nat \<Rightarrow> string" where
  "decimal n = (if n < 10 then [''0123456789'' ! n]
                else decimal (n div 10) @ [''0123456789'' ! (n mod 10)])"

declare decimal.simps [simp del]

fun js_String :: "jsid \<Rightarrow> string" where
  "js_String (IdStr s) = s"
| "js_String (IdNum n) = (if n < 0 then CHR ''-'' # decimal (nat (- n)) else decimal (nat n))"

section \<open>Data model (db.js, routes/auctions.js)\<close>

record bid =
  amount :: jsnum
  bidderId :: jsval
  ts :: nat

record auction =
  auction_id :: jsid
  title :: string
  ownerId :: jsval
  status :: string
  currentBid :: jsnum
  currentBidderId :: jsval
  bids :: "bid list"

text \<open>The simulated certificate configuration of server.js.\<close>

record sslConfig =
  certValidUntil :: nat
  enabled :: bool

text \<open>
  The memory that route handlers and lock callbacks read and write: the registry
  \<open>db.auctions\<close> (a Map keyed by the string form of the identifier), the reading of
  \<open>Date.now()\<close>, and the module-level \<open>sslConfig\<close> object.
\<close>

record heap =
  auctions :: "string \<rightharpoonup> auction"
  clock :: nat
  ssl :: sslConfig

datatype body =
    ErrorBody string
  | AuctionBody auction
  | BidAccepted auction
  | NotificationSent string

record response =
  status_code :: nat
  json :: body

datatype jserror = TypeError | Thrown string

section \<open>The promise-chaining mutex and the registry (db.js)\<close>

text \<open>
  A promise is a cell of the promise store, \<open>True\<close> once fulfilled. An \<open>AsyncLock\<close> object
  holds the field \<open>_p\<close>, the promise at the tail of its chain. Each lock object is stored
  under exactly one key of \<open>db.locks\<close> and is never replaced there, so the key identifies
  the object.

  An outcome is \<open>Inl\<close> for a thrown error and \<open>Inr\<close> for a returned value. Calling an
  async function runs it up to its first suspension and yields its promise: \<open>Settled\<close>
  with the outcome when the function has finished, or \<open>Suspended\<close> with the code that runs
  when the function is resumed, which again runs up to the next suspension.

  An invocation of \<open>AsyncLock.run\<close> is a task. It is suspended at \<open>await prev\<close>
  (\<open>Waiting\<close>), then has called \<open>fn\<close> and is suspended at \<open>await fn()\<close> (\<open>Holding\<close>, with
  the promise of \<open>fn\<close>), then has run its \<open>finally\<close> block and settled its own promise
  (\<open>Done\<close>, with the outcome). The field \<open>releases\<close> counts the executions of
  \<open>resolveNext()\<close> by the invocation. A callback reads and writes the heap; it does not
  call the lock itself (a holder that asks for its own lock again waits for ever).
\<close>

record AsyncLock =
  lock_p :: nat

datatype 'r async = Settled "jserror + 'r" | Suspended "heap \<Rightarrow> 'r async \<times> heap"

datatype 'r phase = Waiting | Holding "'r async" | Done "jserror + 'r"

record 'r task =
  lock_key :: string
  prev :: nat
  next_p :: nat
  thunk :: "heap \<Rightarrow> 'r async \<times> heap"
  phase :: "'r phase"
  releases :: nat

record 'r state =
  heap :: heap
  locks :: "string \<rightharpoonup> AsyncLock"
  promises :: "bool list"
  tasks :: "'r task list"

text \<open>\<open>new Promise(...)\<close> (pending) and \<open>Promise.resolve()\<close> (fulfilled) allocate a cell.\<close>

definition new_promise :: "bool \<Rightarrow> 'r state \<Rightarrow> nat \<times> 'r state" where
  "new_promise fulfilled st =
     (length (promises st), st\<lparr>promises := promises st @ [fulfilled]\<rparr>)"

text \<open>The constructor of \<open>AsyncLock\<close>: \<open>this._p = Promise.resolve()\<close>.\<close>

definition new_AsyncLock :: "'r state \<Rightarrow> AsyncLock \<times> 'r state" where
  "new_AsyncLock st = (let (p, st1) = new_promise True st in (\<lparr>lock_p = p\<rparr>, st1))"

text \<open>
  \<open>AsyncLock.run(fn)\<close> up to its first suspension: create \<open>next\<close>, read \<open>prev\<close> from
  \<open>_p\<close>, store \<open>next\<close> in \<open>_p\<close>, and suspend at \<open>await prev\<close>. The result is the index of
  the new task.
\<close>

definition run :: "string \<Rightarrow> AsyncLock \<Rightarrow> (heap \<Rightarrow> 'r async \<times> heap) \<Rightarrow> 'r state
    \<Rightarrow> nat \<times> 'r state" where
  "run k lock fn st =
     (let (nx, st1) = new_promise False st;
          pv = lock_p lock;
          st2 = st1\<lparr>locks := (locks st1)(k \<mapsto> lock\<lparr>lock_p := nx\<rparr>)\<rparr>
      in (length (tasks st2),
          st2\<lparr>tasks := tasks st2 @
            [\<lparr>lock_key = k, prev = pv, next_p = nx, thunk = fn, phase = Waiting,
              releases = 0\<rparr>]\<rparr>))"

text \<open>
  The continuation of \<open>run\<close> after \<open>await prev\<close>, enabled once \<open>prev\<close> is fulfilled: it
  enters the \<open>try\<close> block and calls \<open>fn()\<close>, which runs the callback.
\<close>

definition can_resume :: "nat \<Rightarrow> 'r state \<Rightarrow> bool" where
  "can_resume t st \<longleftrightarrow>
     t < length (tasks st) \<and> phase (tasks st ! t) = Waiting
     \<and> prev (tasks st ! t) < length (promises st)
     \<and> promises st ! prev (tasks st ! t)"

definition run_resume :: "nat \<Rightarrow> 'r state \<Rightarrow> 'r state option" where
  "run_resume t st =
     (if can_resume t st
      then (let (r, h) = thunk (tasks st ! t) (heap st)
            in Some (st\<lparr>heap := h, tasks := (tasks st)[t := (tasks st ! t)\<lparr>phase := Holding r\<rparr>]\<rparr>))
      else None)"

text \<open>
  The callback of a task that holds the lock is resumed after a suspension of its own
  and runs up to its next suspension or to its end.
\<close>

definition run_continue :: "nat \<Rightarrow> 'r state \<Rightarrow> 'r state option" where
  "run_continue t st =
     (if t < length (tasks st)
      then (case phase (tasks st ! t) of
              Holding (Suspended k) \<Rightarrow>
                (let (c, h) = k (heap st)
                 in Some (st\<lparr>heap := h, tasks := (tasks st)[t := (tasks st ! t)\<lparr>phase := Holding c\<rparr>]\<rparr>))
            | _ \<Rightarrow> None)
      else None)"

text \<open>
  The continuation of \<open>run\<close> after \<open>await fn()\<close>, enabled once the promise of \<open>fn\<close> is
  settled: the \<open>finally\<close> block calls \<open>resolveNext()\<close>, then the outcome of \<open>fn\<close> (value
  or error) becomes the outcome of \<open>run\<close>.
\<close>

definition run_finally :: "nat \<Rightarrow> 'r state \<Rightarrow> 'r state option" where
  "run_finally t st =
     (if t < length (tasks st)
      then (case phase (tasks st ! t) of
              Holding (Settled r) \<Rightarrow>
                Some (st\<lparr>promises := (promises st)[next_p (tasks st ! t) := True],
                         tasks := (tasks st)[t := (tasks st ! t)
                            \<lparr>phase := Done r, releases := releases (tasks st ! t) + 1\<rparr>]\<rparr>)
            | _ \<Rightarrow> None)
      else None)"

definition findAuctionById :: "heap \<Rightarrow> jsid \<Rightarrow> auction option" where
  "findAuctionById h i = auctions h (js_String i)"

text \<open>
  \<open>insertAuction(auction)\<close> stores the shallow copy \<open>{ ...auction }\<close> under \<open>String(id)\<close> and
  creates the lock of that key when there is none. The copy is modelled by value: its
  \<open>bids\<close> array is the array of the argument, which the constructor builds afresh for each
  seed, and no route calls \<open>insertAuction\<close>, so no two entries of the registry share an
  array; an insertion by the machine below likewise stands for one of an object with an
  array of its own.
\<close>

definition insertAuction :: "auction \<Rightarrow> 'r state \<Rightarrow> 'r state" where
  "insertAuction a st =
     (let k = js_String (auction_id a);
          st1 = st\<lparr>heap := (heap st)\<lparr>auctions := (auctions (heap st))(k \<mapsto> a)\<rparr>\<rparr>
      in (case locks st1 k of
            None \<Rightarrow> (let (l, st2) = new_AsyncLock st1 in st2\<lparr>locks := (locks st2)(k \<mapsto> l)\<rparr>)
          | Some _ \<Rightarrow> st1))"

text \<open>
  \<open>withAuctionLock(id, fn)\<close> up to its first suspension. The function handed to \<open>run\<close>
  is the closure \<open>async () => fn(this.findAuctionById(id))\<close>.
\<close>

definition withAuctionLock ::
    "jsid \<Rightarrow> (auction option \<Rightarrow> heap \<Rightarrow> 'r async \<times> heap) \<Rightarrow> 'r state \<Rightarrow> nat \<times> 'r state" where
  "withAuctionLock i fn st =
     (case locks st (js_String i) of
        None \<Rightarrow>
          (let (newLock, st1) = new_AsyncLock st;
               st2 = st1\<lparr>locks := (locks st1)(js_String i \<mapsto> newLock)\<rparr>
           in run (js_String i) newLock (\<lambda>h. fn (findAuctionById h i) h) st2)
      | Some lock \<Rightarrow> run (js_String i) lock (\<lambda>h. fn (findAuctionById h i) h) st)"

text \<open>The constructor of \<open>InMemoryDB\<close>: two empty Maps, then the two seed auctions.\<close>

definition seed1 :: auction where
  "seed1 = \<lparr>auction_id = IdStr ''1'', title = ''Vintage Guitar'', ownerId = JStr ''alice'',
            status = ''active'', currentBid = Fin 100, currentBidderId = JNull, bids = []\<rparr>"

definition seed2 :: auction where
  "seed2 = \<lparr>auction_id = IdStr ''2'', title = ''Rare Book'', ownerId = JStr ''bob'',
            status = ''active'', currentBid = Fin 50, currentBidderId = JNull, bids = []\<rparr>"

text \<open>
  The state of the process once server.js is loaded at clock reading \<open>t0\<close>: the seeded
  registry, and a certificate valid for the next 24 hours.
\<close>

definition InMemoryDB :: "nat \<Rightarrow> 'r state" where
  "InMemoryDB t0 =
     insertAuction seed2 (insertAuction seed1
       \<lparr>heap = \<lparr>auctions = Map.empty, clock = t0,
                ssl = \<lparr>certValidUntil = t0 + 1000 * 60 * 60 * 24, enabled = True\<rparr>\<rparr>,
        locks = Map.empty, promises = [], tasks = []\<rparr>)"

section \<open>The machine: calls, resumptions and clock readings in any order\<close>

text \<open>
  The process is single-threaded: between two suspension points a piece of code runs
  alone. An event is one such piece. Which enabled continuation the event loop runs
  next is left open, so every schedule of the real event loop is a list of events.
\<close>

datatype 'r event =
    Call jsid "auction option \<Rightarrow> heap \<Rightarrow> 'r async \<times> heap"
  | Acquire nat
  | Continue nat
  | Release nat
  | Insert auction
  | Tick nat

fun step :: "'r event \<Rightarrow> 'r state \<Rightarrow> 'r state option" where
  "step (Call i fn) st = Some (snd (withAuctionLock i fn st))"
| "step (Acquire t) st = run_resume t st"
| "step (Continue t) st = run_continue t st"
| "step (Release t) st = run_finally t st"
| "step (Insert a) st = Some (insertAuction a st)"
| "step (Tick n) st = Some (st\<lparr>heap := (heap st)\<lparr>clock := n\<rparr>\<rparr>)"

fun exec :: "'r event list \<Rightarrow> 'r state \<Rightarrow> 'r state option" where
  "exec [] st = Some st"
| "exec (e # es) st = (case step e st of None \<Rightarrow> None | Some st1 \<Rightarrow> exec es st1)"

section \<open>The routes (routes/auctions.js, server.js)\<close>

text \<open>
  A callback of a route yields, in the model, the response it has written to the \<open>res\<close>
  object of its request (\<open>None\<close> when it wrote none); neither route uses the JavaScript
  return value of its callback. Both callbacks run to their end without suspending. A
  handler either replies at once or is suspended on a task, with the code that runs once
  the task has settled.
\<close>

datatype reply = Replied response | Pending nat "jserror + response option \<Rightarrow> response option"

definition sanitizeAuction :: "auction \<Rightarrow> auction" where
  "sanitizeAuction a =
     \<lparr>auction_id = auction_id a, title = title a, ownerId = ownerId a, status = status a,
      currentBid = currentBid a, currentBidderId = currentBidderId a, bids = bids a\<rparr>"

text \<open>\<open>GET /auctions/:id\<close>.\<close>

definition get_auction :: "string \<Rightarrow> response option state \<Rightarrow> reply \<times> response option state" where
  "get_auction param st =
     (case findAuctionById (heap st) (IdStr param) of
        None \<Rightarrow> (Replied \<lparr>status_code = 404, json = ErrorBody ''Auction not found''\<rparr>, st)
      | Some a \<Rightarrow> (Replied \<lparr>status_code = 200, json = AuctionBody (sanitizeAuction a)\<rparr>, st))"

text \<open>
  The callback of \<open>POST /auctions/:id/bid\<close>. The aggregate it receives is the object
  stored under \<open>String(id)\<close>, so its assignments land in that entry of the registry.
\<close>

definition bid_callback ::
    "jsid \<Rightarrow> jsnum \<Rightarrow> jsval \<Rightarrow> auction option \<Rightarrow> heap \<Rightarrow> response option async \<times> heap" where
  "bid_callback i amt bidder found h =
     (case found of
        None \<Rightarrow>
          (Settled (Inr (Some \<lparr>status_code = 404, json = ErrorBody ''Auction not found''\<rparr>)), h)
      | Some a \<Rightarrow>
          if status a \<noteq> ''active''
          then (Settled (Inr (Some \<lparr>status_code = 409,
                                    json = ErrorBody ''Auction is not active''\<rparr>)), h)
          else if strict_eq (ownerId a) bidder
          then (Settled (Inr (Some \<lparr>status_code = 403,
                                    json = ErrorBody ''Owners cannot bid on their own auction''\<rparr>)), h)
          else if num_le amt (currentBid a)
          then (Settled (Inr (Some \<lparr>status_code = 409,
                                    json = ErrorBody ''Bid must be higher than current bid''\<rparr>)), h)
          else (let a1 = a\<lparr>currentBid := amt, currentBidderId := bidder,
                           bids := bids a @ [\<lparr>amount = amt, bidderId = bidder, ts = clock h\<rparr>]\<rparr>
                in (Settled (Inr (Some \<lparr>status_code = 201,
                                          json = BidAccepted (sanitizeAuction a1)\<rparr>)),
                    h\<lparr>auctions := (auctions h)(js_String i \<mapsto> a1)\<rparr>)))"

text \<open>The \<open>.catch\<close> handler of the bid route: a 500 when the lock call failed.\<close>

definition bid_catch :: "jserror + response option \<Rightarrow> response option" where
  "bid_catch r =
     (case r of
        Inl e \<Rightarrow> Some \<lparr>status_code = 500, json = ErrorBody ''Internal Server Error''\<rparr>
      | Inr sent \<Rightarrow> sent)"

text \<open>
  \<open>POST /auctions/:id/bid\<close> for a request that passed the authentication middleware:
  \<open>param\<close> is \<open>req.params.id\<close>, \<open>amt\<close> is \<open>req.body.amount\<close> and \<open>bidder\<close> is
  \<open>req.user?.sub\<close>.
\<close>

definition post_bid ::
    "string \<Rightarrow> jsval \<Rightarrow> jsval \<Rightarrow> response option state \<Rightarrow> reply \<times> response option state" where
  "post_bid param amt bidder st =
     (case amt of
        JNum n \<Rightarrow>
          if \<not> Number_isFinite n \<or> num_le n (Fin 0)
          then (Replied \<lparr>status_code = 400, json = ErrorBody ''amount must be a positive number''\<rparr>, st)
          else (let i = IdStr (js_String (IdStr param));
                    (t, st1) = withAuctionLock i (bid_callback i n bidder) st
                in (Pending t bid_catch, st1))
      | _ \<Rightarrow> (Replied \<lparr>status_code = 400, json = ErrorBody ''amount must be a positive number''\<rparr>, st))"

text \<open>
  The callback of \<open>POST /auctions/:id/notify\<close>: assigning to \<open>a.status\<close> throws a
  TypeError when \<open>a\<close> is null.
\<close>

definition notify_callback ::
    "jsid \<Rightarrow> auction option \<Rightarrow> heap \<Rightarrow> response option async \<times> heap" where
  "notify_callback i found h =
     (case found of
        None \<Rightarrow> (Settled (Inl TypeError), h)
      | Some a \<Rightarrow> (Settled (Inr None), h\<lparr>auctions := (auctions h)(js_String i \<mapsto> a\<lparr>status := ''notified''\<rparr>)\<rparr>))"

text \<open>The code of the notify route after \<open>await db.withAuctionLock(...)\<close>, with its \<open>catch\<close>.\<close>

definition notify_after :: "string \<Rightarrow> jserror + response option \<Rightarrow> response option" where
  "notify_after param r =
     (case r of
        Inl e \<Rightarrow> Some \<lparr>status_code = 500, json = ErrorBody ''Internal Server Error''\<rparr>
      | Inr _ \<Rightarrow> Some \<lparr>status_code = 200, json = NotificationSent param\<rparr>)"

definition post_notify :: "string \<Rightarrow> response option state \<Rightarrow> reply \<times> response option state" where
  "post_notify param st =
     (if \<not> enabled (ssl (heap st)) \<or> clock (heap st) > certValidUntil (ssl (heap st))
      then (Replied \<lparr>status_code = 503,
                     json = ErrorBody ''SSL certificate invalid or expired (simulated)''\<rparr>, st)
      else (case findAuctionById (heap st) (IdStr param) of
              None \<Rightarrow> (Replied \<lparr>status_code = 404, json = ErrorBody ''Auction not found''\<rparr>, st)
            | Some _ \<Rightarrow>
                (let (t, st1) = withAuctionLock (IdStr param) (notify_callback (IdStr param)) st
                 in (Pending t (notify_after param), st1))))"

datatype request = PostBid string jsval jsval | PostNotify string | GetAuction string

fun handle :: "request \<Rightarrow> response option state \<Rightarrow> reply \<times> response option state" where
  "handle (PostBid param amt bidder) st = post_bid param amt bidder st"
| "handle (PostNotify param) st = post_notify param st"
| "handle (GetAuction param) st = get_auction param st"

text \<open>
  The program as a machine: requests arrive, suspended lock invocations are resumed,
  the clock is read; nothing else touches the state.
\<close>

datatype app_event = Request request | Resumed nat | Continued nat | Released nat | Clock nat

fun app_step :: "app_event \<Rightarrow> response option state \<Rightarrow> response option state option" where
  "app_step (Request r) st = Some (snd (handle r st))"
| "app_step (Resumed t) st = run_resume t st"
| "app_step (Continued t) st = run_continue t st"
| "app_step (Released t) st = run_finally t st"
| "app_step (Clock n) st = Some (st\<lparr>heap := (heap st)\<lparr>clock := n\<rparr>\<rparr>)"

fun app_exec :: "app_event list \<Rightarrow> response option state \<Rightarrow> response option state option" where
  "app_exec [] st = Some st"
| "app_exec (e # es) st = (case app_step e st of None \<Rightarrow> None | Some st1 \<Rightarrow> app_exec es st1)"

text \<open>
  One request served with nothing else interleaved: the handler runs, and when it is
  suspended on a task the task is resumed and released at once. The result is \<open>None\<close>
  when the task cannot be resumed, that is when the lock is held or queued for.
\<close>

definition serve :: "request \<Rightarrow> response option state \<Rightarrow> (response option \<times> response option state) option" where
  "serve r st =
     (case handle r st of
        (Replied resp, st1) \<Rightarrow> Some (Some resp, st1)
      | (Pending t k, st1) \<Rightarrow>
          (case run_resume t st1 of
             None \<Rightarrow> None
           | Some st2 \<Rightarrow>
               (case run_finally t st2 of
                  None \<Rightarrow> None
                | Some st3 \<Rightarrow>
                    (case phase (tasks st3 ! t) of
                       Done r \<Rightarrow> Some (k r, st3)
                     | _ \<Rightarrow> None))))"

section \<open>Notions used to state the properties\<close>

text \<open>
  The validation list as the specification words it, on the aggregate the transaction
  observes: absent, not active, own auction, amount not a finite positive number, amount
  not above the current bid; the result is the HTTP status of the first failing check,
  or 201.
\<close>

fun finite_positive :: "jsval \<Rightarrow> bool" where
  "finite_positive (JNum n) = (Number_isFinite n \<and> num_lt (Fin 0) n)"
| "finite_positive _ = False"

definition checks_in_order :: "jsnum \<Rightarrow> jsval \<Rightarrow> auction option \<Rightarrow> nat" where
  "checks_in_order amt bidder found =
     (case found of
        None \<Rightarrow> 404
      | Some a \<Rightarrow>
          if status a \<noteq> ''active'' then 409
          else if strict_eq (ownerId a) bidder then 403
          else if \<not> finite_positive (JNum amt) then 400
          else if num_le amt (currentBid a) then 409
          else 201)"

text \<open>Tasks are only ever appended, and only the phase and the release count of a task change.\<close>

definition extends :: "'r state \<Rightarrow> 'r state \<Rightarrow> bool" where
  "extends st st1 \<longleftrightarrow>
     length (tasks st) \<le> length (tasks st1) \<and>
     (\<forall>t < length (tasks st).
        thunk (tasks st1 ! t) = thunk (tasks st ! t)
        \<and> lock_key (tasks st1 ! t) = lock_key (tasks st ! t)
        \<and> prev (tasks st1 ! t) = prev (tasks st ! t)
        \<and> next_p (tasks st1 ! t) = next_p (tasks st ! t))"

text \<open>
  The invariant of the registry of the running program. \<open>tracks a0 a\<close>: the aggregate \<open>a\<close>
  is the seed \<open>a0\<close> after some accepted bids: same identity, title and owner, a finite
  \<open>currentBid\<close> that is the amount of the last bid, or the seed's when there is none,
  amounts strictly increasing and none above \<open>currentBid\<close>, and a highest bidder who is
  not the owner. \<open>inv_heap\<close>: the registry holds exactly the two seeded keys, each with an
  aggregate that tracks its seed. \<open>app_inv\<close>: moreover no callback in flight is suspended,
  and every queued callback settles at once and keeps \<open>inv_heap\<close>.
\<close>

definition tracks :: "auction \<Rightarrow> auction \<Rightarrow> bool" where
  "tracks a0 a \<longleftrightarrow>
     auction_id a = auction_id a0 \<and> title a = title a0 \<and> ownerId a = ownerId a0
     \<and> Number_isFinite (currentBid a)
     \<and> currentBid a = (if bids a = [] then currentBid a0 else amount (last (bids a)))
     \<and> sorted_wrt num_lt (map amount (bids a))
     \<and> (\<forall>b \<in> set (bids a). num_le (amount b) (currentBid a))
     \<and> currentBidderId a \<noteq> ownerId a"

definition inv_heap :: "heap \<Rightarrow> bool" where
  "inv_heap h \<longleftrightarrow>
     (\<forall>k. case auctions h k of
            None \<Rightarrow> k \<noteq> ''1'' \<and> k \<noteq> ''2''
          | Some a \<Rightarrow> (k = ''1'' \<and> tracks seed1 a) \<or> (k = ''2'' \<and> tracks seed2 a))"

definition app_inv :: "response option state \<Rightarrow> bool" where
  "app_inv st \<longleftrightarrow>
     inv_heap (heap st) \<and>
     (\<forall>t < length (tasks st).
        (\<forall>k. phase (tasks st ! t) \<noteq> Holding (Suspended k)) \<and>
        (\<forall>h. (\<exists>r. fst (thunk (tasks st ! t) h) = Settled r) \<and>
             (inv_heap h \<longrightarrow> inv_heap (snd (thunk (tasks st ! t) h)))))"

text \<open>
  The invariant of the promise chains. Task indices are arrival order. \<open>inv_bounds\<close>:
  every promise referred to exists, every task's lock exists, and no two tasks share their
  \<open>next\<close> promise. \<open>inv_settled\<close>: the \<open>next\<close> promise of a task is fulfilled exactly when
  the task is done, and a task has released once when done and not at all before.
  \<open>inv_fifo\<close>: a task past \<open>await prev\<close> has only finished tasks before it on its lock.
  \<open>inv_chain\<close>: a fulfilled \<open>prev\<close>, or a fulfilled \<open>_p\<close> of a lock, means every earlier task
  of that lock is done; a \<open>prev\<close> that is the \<open>next\<close> of a task is that of the latest earlier
  task of the same lock; the \<open>_p\<close> of a lock that is the \<open>next\<close> of a task is that of the
  latest task of the lock. \<open>inv_linked\<close>: a \<open>prev\<close> and a \<open>_p\<close> are fulfilled or are the
  \<open>next\<close> of a task.
\<close>

fun is_Done :: "'r phase \<Rightarrow> bool" where
  "is_Done (Done _) = True"
| "is_Done _ = False"

definition inv_bounds :: "'r state \<Rightarrow> bool" where
  "inv_bounds st \<longleftrightarrow>
     (\<forall>t < length (tasks st). prev (tasks st ! t) < length (promises st)
          \<and> next_p (tasks st ! t) < length (promises st)
          \<and> locks st (lock_key (tasks st ! t)) \<noteq> None)
     \<and> (\<forall>k l. locks st k = Some l \<longrightarrow> lock_p l < length (promises st))
     \<and> (\<forall>i < length (tasks st). \<forall>j < length (tasks st).
           next_p (tasks st ! i) = next_p (tasks st ! j) \<longrightarrow> i = j)"

definition inv_settled :: "'r state \<Rightarrow> bool" where
  "inv_settled st \<longleftrightarrow>
     (\<forall>t < length (tasks st).
        (promises st ! next_p (tasks st ! t) \<longleftrightarrow> is_Done (phase (tasks st ! t)))
        \<and> releases (tasks st ! t) = (if is_Done (phase (tasks st ! t)) then 1 else 0))"

definition inv_fifo :: "'r state \<Rightarrow> bool" where
  "inv_fifo st \<longleftrightarrow>
     (\<forall>j < length (tasks st). \<forall>i < j.
        lock_key (tasks st ! i) = lock_key (tasks st ! j) \<and> phase (tasks st ! j) \<noteq> Waiting
        \<longrightarrow> is_Done (phase (tasks st ! i)))"

definition inv_chain :: "'r state \<Rightarrow> bool" where
  "inv_chain st \<longleftrightarrow>
     (\<forall>m < length (tasks st). promises st ! prev (tasks st ! m) \<longrightarrow>
        (\<forall>j < m. lock_key (tasks st ! j) = lock_key (tasks st ! m) \<longrightarrow> is_Done (phase (tasks st ! j))))
     \<and> (\<forall>k l. locks st k = Some l \<and> promises st ! lock_p l \<longrightarrow>
        (\<forall>j < length (tasks st). lock_key (tasks st ! j) = k \<longrightarrow> is_Done (phase (tasks st ! j))))
     \<and> (\<forall>m < length (tasks st). \<forall>i < length (tasks st).
          prev (tasks st ! m) = next_p (tasks st ! i) \<longrightarrow>
          i < m \<and> lock_key (tasks st ! i) = lock_key (tasks st ! m)
          \<and> (\<forall>j. i < j \<and> j < m \<longrightarrow> lock_key (tasks st ! j) \<noteq> lock_key (tasks st ! m)))
     \<and> (\<forall>k l. locks st k = Some l \<longrightarrow>
          (\<forall>i < length (tasks st). lock_p l = next_p (tasks st ! i) \<longrightarrow>
             lock_key (tasks st ! i) = k
             \<and> (\<forall>j. i < j \<and> j < length (tasks st) \<longrightarrow> lock_key (tasks st ! j) \<noteq> k)))"

definition inv_linked :: "'r state \<Rightarrow> bool" where
  "inv_linked st \<longleftrightarrow>
     (\<forall>m < length (tasks st). promises st ! prev (tasks st ! m)
         \<or> (\<exists>i < m. prev (tasks st ! m) = next_p (tasks st ! i)))
     \<and> (\<forall>k l. locks st k = Some l \<longrightarrow> promises st ! lock_p l
         \<or> (\<exists>i < length (tasks st). lock_p l = next_p (tasks st ! i)))"

definition lock_inv :: "'r state \<Rightarrow> bool" where
  "lock_inv st \<longleftrightarrow>
     inv_bounds st \<and> inv_settled st \<and> inv_fifo st \<and> inv_chain st \<and> inv_linked st"

section \<open>Identifiers are normalised to strings\<close>

lemma js_String_idem: "js_String (IdStr (js_String i)) = js_String i"
  by simp

text \<open>
  C10. Every registry and lock operation addresses its Map through \<open>String(id)\<close>:
  \<open>findAuctionById\<close> and \<open>withAuctionLock\<close> behave the same on an identifier and on its
  string form (the same aggregate is looked up, the same lock is taken and the same task
  is queued), and \<open>insertAuction\<close> files the aggregate under the string form of its
  \<open>id\<close> field, where both forms of the identifier find it, and creates or keeps the same
  lock whichever form the field has.
\<close>

theorem id_normalised:
  "findAuctionById h i = findAuctionById h (IdStr (js_String i))
   \<and> withAuctionLock i fn st = withAuctionLock (IdStr (js_String i)) fn st
   \<and> findAuctionById (heap (insertAuction a st)) (auction_id a) = Some a
   \<and> findAuctionById (heap (insertAuction a st)) (IdStr (js_String (auction_id a))) = Some a
   \<and> locks (insertAuction (a\<lparr>auction_id := IdStr (js_String (auction_id a))\<rparr>) st)
       = locks (insertAuction a st)
   \<and> locks (insertAuction a st) (js_String (auction_id a)) \<noteq> None
   \<and> auctions (heap (insertAuction (a\<lparr>auction_id := IdStr (js_String (auction_id a))\<rparr>) st))
       = (auctions (heap (insertAuction a st)))
            (js_String (auction_id a) \<mapsto> a\<lparr>auction_id := IdStr (js_String (auction_id a))\<rparr>)"
  by (simp add: findAuctionById_def withAuctionLock_def insertAuction_def new_AsyncLock_def
      new_promise_def Let_def split: option.splits)

theorem id_normalised_witness:
  "findAuctionById (heap (InMemoryDB 0 :: unit state)) (IdNum 1)
     = findAuctionById (heap (InMemoryDB 0 :: unit state)) (IdStr ''1'')
   \<and> findAuctionById (heap (InMemoryDB 0 :: unit state)) (IdNum 1) = Some seed1
   \<and> withAuctionLock (IdNum 1) (\<lambda>a h. (Settled (Inr ()), h)) (InMemoryDB 0)
     = withAuctionLock (IdStr ''1'') (\<lambda>a h. (Settled (Inr ()), h)) (InMemoryDB 0)
   \<and> locks (insertAuction (seed1\<lparr>auction_id := IdNum 7\<rparr>) (InMemoryDB 0 :: unit state)) ''7''
     = Some \<lparr>lock_p = 2\<rparr>
   \<and> locks (insertAuction (seed1\<lparr>auction_id := IdStr ''7''\<rparr>) (InMemoryDB 0 :: unit state))
     = locks (insertAuction (seed1\<lparr>auction_id := IdNum 7\<rparr>) (InMemoryDB 0 :: unit state))"
  using id_normalised [of "heap (InMemoryDB 0 :: unit state)" "IdNum 1" "\<lambda>a h. (Settled (Inr ()), h)"
      "InMemoryDB 0" "seed1\<lparr>auction_id := IdNum 7\<rparr>"]
  by (simp add: decimal.simps InMemoryDB_def insertAuction_def new_AsyncLock_def new_promise_def
      seed1_def seed2_def findAuctionById_def Let_def)

section \<open>The scenario of the specification\<close>

text \<open>
  C8. From the seeded registry, with each request served before the next arrives: a bid
  by charlie for 120 on auction 1 is answered 201 and leaves \<open>currentBid\<close> at 120; the
  following bid by dave for 110 is answered 409; a bid by alice, the owner, for 150 is
  answered 403; a bid for 50 on the unknown auction 99 is answered 404.
\<close>

theorem seeded_scenario:
  "\<exists>r1 st1 r2 st2 r3 st3 r4 st4.
     serve (PostBid ''1'' (JNum (Fin 120)) (JStr ''charlie'')) (InMemoryDB t0) = Some (Some r1, st1)
     \<and> status_code r1 = 201
     \<and> map_option currentBid (findAuctionById (heap st1) (IdStr ''1'')) = Some (Fin 120)
     \<and> serve (PostBid ''1'' (JNum (Fin 110)) (JStr ''dave'')) st1 = Some (Some r2, st2)
     \<and> status_code r2 = 409
     \<and> json r2 = ErrorBody ''Bid must be higher than current bid''
     \<and> serve (PostBid ''1'' (JNum (Fin 150)) (JStr ''alice'')) st2 = Some (Some r3, st3)
     \<and> status_code r3 = 403
     \<and> serve (PostBid ''99'' (JNum (Fin 50)) (JStr ''charlie'')) st3 = Some (Some r4, st4)
     \<and> status_code r4 = 404"
  by (simp add: serve_def post_bid_def InMemoryDB_def insertAuction_def new_AsyncLock_def
      new_promise_def seed1_def seed2_def withAuctionLock_def run_def run_resume_def
      can_resume_def run_finally_def bid_callback_def findAuctionById_def Let_def strict_eq_def bid_catch_def
      sanitizeAuction_def)

theorem seeded_scenario_witness:
  "\<exists>r1 st1 r2 st2.
     serve (PostBid ''1'' (JNum (Fin 120)) (JStr ''charlie'')) (InMemoryDB 0) = Some (Some r1, st1)
     \<and> status_code r1 = 201
     \<and> serve (PostBid ''1'' (JNum (Fin 110)) (JStr ''dave'')) st1 = Some (Some r2, st2)
     \<and> status_code r2 = 409"
  using seeded_scenario [of 0] by blast

section \<open>What each operation does to the state\<close>

lemma AsyncLock_update: "(l::AsyncLock)\<lparr>lock_p := n\<rparr> = \<lparr>lock_p = n\<rparr>"
  by (cases l) simp

lemma nth_update_if: "t < length xs \<Longrightarrow> (xs[i := y]) ! t = (if i = t then y else xs ! t)"
  by (simp add: nth_list_update)

lemma withAuctionLock_fields:
  "fst (withAuctionLock i fn st) = length (tasks st)"
  "heap (snd (withAuctionLock i fn st)) = heap st"
  "tasks (snd (withAuctionLock i fn st)) = tasks st @
      [\<lparr>lock_key = js_String i,
        prev = (case locks st (js_String i) of None \<Rightarrow> length (promises st) | Some l \<Rightarrow> lock_p l),
        next_p = (case locks st (js_String i) of None \<Rightarrow> Suc (length (promises st)) | Some l \<Rightarrow> length (promises st)),
        thunk = (\<lambda>h. fn (findAuctionById h i) h), phase = Waiting, releases = 0\<rparr>]"
  "promises (snd (withAuctionLock i fn st)) = promises st @
      (case locks st (js_String i) of None \<Rightarrow> [True, False] | Some l \<Rightarrow> [False])"
  "locks (snd (withAuctionLock i fn st)) = (locks st)(js_String i \<mapsto>
      \<lparr>lock_p = (case locks st (js_String i) of None \<Rightarrow> Suc (length (promises st)) | Some l \<Rightarrow> length (promises st))\<rparr>)"
  by (simp_all add: withAuctionLock_def run_def new_AsyncLock_def new_promise_def Let_def
      AsyncLock_update split: option.splits)

lemma run_resume_fields:
  assumes "run_resume t st = Some st1"
  shows "can_resume t st"
    "heap st1 = snd (thunk (tasks st ! t) (heap st))"
    "tasks st1 = (tasks st)[t := (tasks st ! t)\<lparr>phase := Holding (fst (thunk (tasks st ! t) (heap st)))\<rparr>]"
    "promises st1 = promises st" "locks st1 = locks st"
  using assms by (auto simp: run_resume_def Let_def split: if_splits prod.splits)

lemma can_resume_run:
  assumes "can_resume t st"
  shows "\<exists>st1. run_resume t st = Some st1
     \<and> heap st1 = snd (thunk (tasks st ! t) (heap st))
     \<and> phase (tasks st1 ! t) = Holding (fst (thunk (tasks st ! t) (heap st)))"
  using assms by (auto simp: run_resume_def can_resume_def Let_def split: prod.splits)

lemma run_finally_fields:
  assumes "run_finally t st = Some st1"
  shows "t < length (tasks st)" "\<exists>r. phase (tasks st ! t) = Holding (Settled r) \<and>
      tasks st1 = (tasks st)[t := (tasks st ! t)\<lparr>phase := Done r, releases := releases (tasks st ! t) + 1\<rparr>]"
    "heap st1 = heap st"
    "promises st1 = (promises st)[next_p (tasks st ! t) := True]" "locks st1 = locks st"
  using assms by (auto simp: run_finally_def Let_def split: if_splits phase.splits async.splits)

lemma run_continue_fields:
  assumes "run_continue t st = Some st1"
  shows "t < length (tasks st)"
    "\<exists>k. phase (tasks st ! t) = Holding (Suspended k) \<and> heap st1 = snd (k (heap st))
       \<and> tasks st1 = (tasks st)[t := (tasks st ! t)\<lparr>phase := Holding (fst (k (heap st)))\<rparr>]"
    "promises st1 = promises st" "locks st1 = locks st"
  using assms
  by (auto simp: run_continue_def Let_def split: if_splits phase.splits async.splits prod.splits)

lemma insertAuction_fields:
  "heap (insertAuction a st) = (heap st)\<lparr>auctions := (auctions (heap st))(js_String (auction_id a) \<mapsto> a)\<rparr>"
  "tasks (insertAuction a st) = tasks st"
  "promises (insertAuction a st) = promises st @
      (case locks st (js_String (auction_id a)) of None \<Rightarrow> [True] | Some l \<Rightarrow> [])"
  "locks (insertAuction a st) = (case locks st (js_String (auction_id a)) of
       None \<Rightarrow> (locks st)(js_String (auction_id a) \<mapsto> \<lparr>lock_p = length (promises st)\<rparr>)
     | Some l \<Rightarrow> locks st)"
  by (simp_all add: insertAuction_def new_AsyncLock_def new_promise_def Let_def split: option.splits)

text \<open>The unfolding that evaluates the machine on concrete states.\<close>

lemmas model_defs = InMemoryDB_def insertAuction_def new_AsyncLock_def
      new_promise_def seed1_def seed2_def withAuctionLock_def run_def run_resume_def
      can_resume_def run_continue_def run_finally_def findAuctionById_def Let_def

section \<open>Tasks persist\<close>

lemma step_extends: "step e st = Some st1 \<Longrightarrow> extends st st1"
  by (cases e) (auto simp: extends_def withAuctionLock_fields nth_append nth_update_if insertAuction_fields
     dest!: run_resume_fields(3) run_finally_fields(2) run_continue_fields(2))

lemma extends_refl: "extends st st" by (simp add: extends_def)
lemma extends_trans: "extends a b \<Longrightarrow> extends b c \<Longrightarrow> extends a c"
  by (auto simp: extends_def)

lemma exec_extends: "exec es st = Some st1 \<Longrightarrow> extends st st1"
  by (induction es arbitrary: st) (auto simp: extends_refl split: option.splits intro: extends_trans step_extends)

lemma call_then_exec:
  assumes "withAuctionLock i fn st0 = (t, st1)" "exec es st1 = Some st"
  shows "t = length (tasks st0)" "t < length (tasks st)"
     "thunk (tasks st ! t) = (\<lambda>h. fn (findAuctionById h i) h)"
     "lock_key (tasks st ! t) = js_String i"
proof -
  have t: "t = length (tasks st0)" and st1: "st1 = snd (withAuctionLock i fn st0)"
    using assms(1) withAuctionLock_fields(1)[of i fn st0] by auto
  have len: "t < length (tasks st1)" and
    th: "thunk (tasks st1 ! t) = (\<lambda>h. fn (findAuctionById h i) h)" and
    k: "lock_key (tasks st1 ! t) = js_String i"
    by (simp_all add: t st1 withAuctionLock_fields)
  have e: "extends st1 st" by (rule exec_extends [OF assms(2)])
  show "t = length (tasks st0)" by (rule t)
  show "t < length (tasks st)" using e len by (auto simp: extends_def)
  show "thunk (tasks st ! t) = (\<lambda>h. fn (findAuctionById h i) h)"
    using e len th by (auto simp: extends_def)
  show "lock_key (tasks st ! t) = js_String i"
    using e len k by (auto simp: extends_def)
qed

section \<open>The callback runs on the state found when the lock is granted\<close>

lemma resume_after_call:
  assumes "withAuctionLock i fn st0 = (t, st1)" and "exec es st1 = Some st" and "can_resume t st"
  shows "\<exists>st2. run_resume t st = Some st2
    \<and> phase (tasks st2 ! t) = Holding (fst (fn (findAuctionById (heap st) i) (heap st)))
    \<and> heap st2 = snd (fn (findAuctionById (heap st) i) (heap st))"
  using can_resume_run [OF assms(3)] call_then_exec(3) [OF assms(1,2)] by auto

section \<open>Validation order of a bid\<close>

lemma bid_callback_code:
  "\<exists>resp. fst (bid_callback i n bidder found h) = Settled (Inr (Some resp))
     \<and> (finite_positive (JNum n) \<longrightarrow> status_code resp = checks_in_order n bidder found)"
  by (auto simp: bid_callback_def checks_in_order_def Let_def split: option.splits)

section \<open>The invariant of the seeded registry\<close>

lemma num_le_lt_trans: "num_le a b \<Longrightarrow> \<not> num_le c b \<Longrightarrow> Number_isFinite b \<Longrightarrow> Number_isFinite c \<Longrightarrow> num_lt a c"
  by (cases a; cases b; cases c) auto

lemma not_le_lt: "\<not> num_le c b \<Longrightarrow> Number_isFinite b \<Longrightarrow> Number_isFinite c \<Longrightarrow> num_lt b c"
  by (cases b; cases c) auto

lemma num_le_trans': "num_le a b \<Longrightarrow> \<not> num_le c b \<Longrightarrow> Number_isFinite b \<Longrightarrow> Number_isFinite c \<Longrightarrow> num_le a c"
  by (cases a; cases b; cases c) auto

lemma num_le_refl: "Number_isFinite c \<Longrightarrow> num_le c c"
  by (cases c) auto

lemma tracks_bid:
  assumes "tracks a0 a" "Number_isFinite n" "\<not> num_le n (currentBid a)"
    "\<not> strict_eq (ownerId a) bidder" "ownerId a0 \<noteq> JNum NaN"
  shows "tracks a0 (a\<lparr>currentBid := n, currentBidderId := bidder,
            bids := bids a @ [\<lparr>amount = n, bidderId = bidder, ts = c\<rparr>]\<rparr>)"
  using assms
  by (auto simp: tracks_def sorted_wrt_append strict_eq_def num_le_refl
      intro: num_le_lt_trans num_le_trans')

lemma tracks_notify: "tracks a0 a \<Longrightarrow> tracks a0 (a\<lparr>status := s\<rparr>)"
  unfolding tracks_def by (auto split: if_splits)

lemma inv_heap_upd1:
  "inv_heap h \<Longrightarrow> tracks seed1 a \<Longrightarrow> inv_heap (h\<lparr>auctions := (auctions h)(''1'' \<mapsto> a)\<rparr>)"
  by (auto simp: inv_heap_def split: option.splits)

lemma inv_heap_upd2:
  "inv_heap h \<Longrightarrow> tracks seed2 a \<Longrightarrow> inv_heap (h\<lparr>auctions := (auctions h)(''2'' \<mapsto> a)\<rparr>)"
  by (auto simp: inv_heap_def split: option.splits)

lemma inv_heap_cases:
  assumes "inv_heap h" "auctions h k = Some a"
  shows "(k = ''1'' \<and> tracks seed1 a) \<or> (k = ''2'' \<and> tracks seed2 a)"
  using assms unfolding inv_heap_def by (auto split: option.splits dest!: spec[of _ k])

lemma bid_thunk_inv:
  assumes "inv_heap h" "Number_isFinite n"
  shows "inv_heap (snd (bid_callback (IdStr p) n bidder (findAuctionById h (IdStr p)) h))"
proof (cases "auctions h p")
  case None
  then show ?thesis using assms by (simp add: bid_callback_def findAuctionById_def)
next
  case (Some a)
  from inv_heap_cases [OF assms(1) Some] show ?thesis
  proof
    assume k: "p = ''1'' \<and> tracks seed1 a"
    then have o: "ownerId seed1 \<noteq> JNum NaN" by (simp add: seed1_def)
    show ?thesis using Some k assms
      by (auto simp: bid_callback_def findAuctionById_def Let_def
          intro!: inv_heap_upd1 tracks_bid [OF _ _ _ _ o])
  next
    assume k: "p = ''2'' \<and> tracks seed2 a"
    then have o: "ownerId seed2 \<noteq> JNum NaN" by (simp add: seed2_def)
    show ?thesis using Some k assms
      by (auto simp: bid_callback_def findAuctionById_def Let_def
          intro!: inv_heap_upd2 tracks_bid [OF _ _ _ _ o])
  qed
qed

lemma notify_thunk_inv:
  assumes "inv_heap h"
  shows "inv_heap (snd (notify_callback (IdStr p) (findAuctionById h (IdStr p)) h))"
proof (cases "auctions h p")
  case None
  then show ?thesis using assms by (simp add: notify_callback_def findAuctionById_def)
next
  case (Some a)
  from inv_heap_cases [OF assms(1) Some] show ?thesis
    using Some assms
    by (auto simp: notify_callback_def findAuctionById_def intro!: inv_heap_upd1 inv_heap_upd2 tracks_notify)
qed

lemma app_inv_init: "app_inv (InMemoryDB t0)"
  by (auto simp: app_inv_def inv_heap_def insertAuction_fields InMemoryDB_def tracks_def seed1_def seed2_def)

lemma bid_settles: "\<exists>r. fst (bid_callback i n bidder found h) = Settled r"
  by (auto simp: bid_callback_def Let_def split: option.splits)

lemma notify_settles: "\<exists>r. fst (notify_callback i found h) = Settled r"
  by (auto simp: notify_callback_def split: option.splits)

lemma app_inv_call:
  assumes "app_inv st" "\<And>h. inv_heap h \<Longrightarrow> inv_heap (snd (fn (findAuctionById h i) h))"
    "\<And>h. \<exists>r. fst (fn (findAuctionById h i) h) = Settled r"
  shows "app_inv (snd (withAuctionLock i fn st))"
  using assms by (auto simp: app_inv_def withAuctionLock_fields nth_append)

lemma app_inv_handle: "app_inv st \<Longrightarrow> app_inv (snd (handle r st))"
proof (induction r st rule: handle.induct)
  case (1 param amt bidder st)
  show ?case
  proof (cases "finite_positive amt")
    case False
    then show ?thesis using 1
      by (cases amt; cases "case amt of JNum n \<Rightarrow> n | _ \<Rightarrow> NaN") (auto simp: post_bid_def)
  next
    case True
    then obtain n where n: "amt = JNum n" "Number_isFinite n" "\<not> num_le n (Fin 0)"
      by (cases amt; cases "case amt of JNum n \<Rightarrow> n | _ \<Rightarrow> NaN") auto
    have "app_inv (snd (withAuctionLock (IdStr param) (bid_callback (IdStr param) n bidder) st))"
      by (rule app_inv_call [OF 1]) (erule bid_thunk_inv [OF _ n(2)], rule bid_settles)
    then show ?thesis using n
      by (auto simp: post_bid_def Let_def split: prod.splits)
  qed
next
  case (2 param st)
  have "app_inv (snd (withAuctionLock (IdStr param) (notify_callback (IdStr param)) st))"
    by (rule app_inv_call [OF 2]) (erule notify_thunk_inv, rule notify_settles)
  then show ?case using 2
    by (auto simp: post_notify_def Let_def split: prod.splits option.splits)
next
  case (3 param st)
  then show ?case by (auto simp: get_auction_def split: option.splits)
qed

lemma app_step_inv: "app_inv st \<Longrightarrow> app_step e st = Some st1 \<Longrightarrow> app_inv st1"
proof (cases e)
  case (Request r)
  assume "app_inv st" "app_step e st = Some st1"
  then show ?thesis using Request app_inv_handle [of st r] by auto
next
  case (Resumed t)
  assume a: "app_inv st" "app_step e st = Some st1"
  then have r: "run_resume t st = Some st1" using Resumed by simp
  note f = run_resume_fields [OF r]
  have t: "t < length (tasks st)" using f(1) by (simp add: can_resume_def)
  from a(1) t obtain r0 where "fst (thunk (tasks st ! t) (heap st)) = Settled r0"
    unfolding app_inv_def by blast
  then show ?thesis using f a(1)
    by (auto simp: app_inv_def can_resume_def nth_update_if)
next
  case (Continued t)
  assume a: "app_inv st" "app_step e st = Some st1"
  then have r: "run_continue t st = Some st1" using Continued by simp
  from run_continue_fields(1,2) [OF r] a(1) show ?thesis
    by (auto simp: app_inv_def)
next
  case (Released t)
  assume a: "app_inv st" "app_step e st = Some st1"
  then have r: "run_finally t st = Some st1" using Released by simp
  from run_finally_fields [OF r] a(1) show ?thesis
    by (auto simp: app_inv_def nth_update_if split: if_splits)
next
  case (Clock n)
  assume "app_inv st" "app_step e st = Some st1"
  then show ?thesis using Clock by (auto simp: app_inv_def inv_heap_def)
qed

lemma app_exec_inv: "app_inv st \<Longrightarrow> app_exec es st = Some st1 \<Longrightarrow> app_inv st1"
  by (induction es arbitrary: st) (auto split: option.splits dest: app_step_inv)

lemma reachable_inv: "app_exec es (InMemoryDB t0) = Some st \<Longrightarrow> app_inv st"
  using app_exec_inv [OF app_inv_init] by blast




text \<open>
  C5. In every state the program reaches from the seeded registry, by any interleaving of
  requests (bids accepted or rejected, notifications, lookups), resumptions and clock
  readings, each auction of the registry is one of the seeded ones, its \<open>currentBid\<close> is
  the amount of the last element of its \<open>bids\<close>, or its seed value when \<open>bids\<close> is empty,
  and the amounts of its \<open>bids\<close> are strictly increasing.
\<close>

theorem bids_track_current_bid:
  assumes "app_exec es (InMemoryDB t0) = Some st" and "auctions (heap st) k = Some a"
  shows "\<exists>a0. auctions (heap (InMemoryDB t0 :: response option state)) k = Some a0
     \<and> currentBid a = (if bids a = [] then currentBid a0 else amount (last (bids a)))
     \<and> sorted_wrt num_lt (map amount (bids a))"
proof -
  have "inv_heap (heap st)" using reachable_inv [OF assms(1)] by (simp add: app_inv_def)
  from inv_heap_cases [OF this assms(2)] show ?thesis
    by (auto simp: tracks_def InMemoryDB_def insertAuction_fields seed1_def seed2_def)
qed

text \<open>Two accepted bids and a notification on auction 1.\<close>

theorem bids_track_current_bid_witness:
  "\<exists>st a. app_exec [Request (PostBid ''1'' (JNum (Fin 120)) (JStr ''charlie'')), Resumed 0, Released 0,
                  Request (PostBid ''1'' (JNum (Fin 130)) (JStr ''dave'')), Resumed 1, Released 1,
                  Request (PostNotify ''1''), Resumed 2, Released 2]
        (InMemoryDB 0) = Some st
     \<and> auctions (heap st) ''1'' = Some a
     \<and> map amount (bids a) = [Fin 120, Fin 130]
     \<and> currentBid a = Fin 130
     \<and> sorted_wrt num_lt (map amount (bids a))"
proof -
  let ?es = "[Request (PostBid ''1'' (JNum (Fin 120)) (JStr ''charlie'')), Resumed 0, Released 0,
              Request (PostBid ''1'' (JNum (Fin 130)) (JStr ''dave'')), Resumed 1, Released 1,
              Request (PostNotify ''1''), Resumed 2, Released 2]"
  obtain st a where a: "app_exec ?es (InMemoryDB 0) = Some st" and b: "auctions (heap st) ''1'' = Some a"
    and c: "map amount (bids a) = [Fin 120, Fin 130]"
    by (simp add: model_defs post_bid_def post_notify_def bid_callback_def notify_callback_def strict_eq_def)
  from bids_track_current_bid [OF a b] c a b show ?thesis by auto
qed

section \<open>Accepted bids, self-bids and notifications\<close>


lemma num_lt_not_le: "num_lt c n \<Longrightarrow> \<not> num_le n c"
  by (cases c; cases n) auto

text \<open>
  C4. A bid with a finite positive amount is queued on the lock of its auction. When it is
  resumed, in whatever state \<open>st\<close> the machine is by then, and the aggregate found in \<open>st\<close>
  is active, is not owned by the bidder and has a \<open>currentBid\<close> strictly below the amount,
  the transaction sets \<open>currentBid\<close> to the amount and \<open>currentBidderId\<close> to the bidder,
  appends one bid record stamped with the clock reading of that moment, changes nothing
  else in the registry, and the response is 201 with the updated aggregate.
\<close>

theorem bid_accepted:
  assumes "post_bid param (JNum amt) bidder st0 = (rep, st1)"
    and "Number_isFinite amt" and "num_lt (Fin 0) amt"
    and "exec es st1 = Some st" and "can_resume (length (tasks st0)) st"
    and "findAuctionById (heap st) (IdStr param) = Some a"
    and "status a = ''active''" and "\<not> strict_eq (ownerId a) bidder"
    and "num_lt (currentBid a) amt"
  shows "\<exists>st2 r a1. rep = Pending (length (tasks st0)) bid_catch
     \<and> a1 = a\<lparr>currentBid := amt, currentBidderId := bidder,
               bids := bids a @ [\<lparr>amount = amt, bidderId = bidder, ts = clock (heap st)\<rparr>]\<rparr>
     \<and> run_resume (length (tasks st0)) st = Some st2
     \<and> heap st2 = (heap st)\<lparr>auctions := (auctions (heap st))(param \<mapsto> a1)\<rparr>
     \<and> phase (tasks st2 ! length (tasks st0)) = Holding (Settled r)
     \<and> bid_catch r = Some \<lparr>status_code = 201, json = BidAccepted a1\<rparr>"
proof -
  let ?i = "IdStr param"
  let ?t = "length (tasks st0)"
  have le: "\<not> num_le amt (Fin 0)" by (rule num_lt_not_le [OF assms(3)])
  have call: "withAuctionLock ?i (bid_callback ?i amt bidder) st0 = (?t, st1)"
    and rep: "rep = Pending ?t bid_catch"
    using assms(1,2) le withAuctionLock_fields(1)[of ?i "bid_callback ?i amt bidder" st0]
    by (auto simp: post_bid_def Let_def split: prod.splits)
  from resume_after_call [OF call assms(4,5)] obtain st2 where
    st2: "run_resume ?t st = Some st2"
      "phase (tasks st2 ! ?t) = Holding (fst (bid_callback ?i amt bidder (findAuctionById (heap st) ?i) (heap st)))"
      "heap st2 = snd (bid_callback ?i amt bidder (findAuctionById (heap st) ?i) (heap st))"
    by blast
  have cb: "bid_callback ?i amt bidder (Some a) (heap st) =
     (Settled (Inr (Some \<lparr>status_code = 201, json = BidAccepted (a\<lparr>currentBid := amt, currentBidderId := bidder,
               bids := bids a @ [\<lparr>amount = amt, bidderId = bidder, ts = clock (heap st)\<rparr>]\<rparr>)\<rparr>)),
      (heap st)\<lparr>auctions := (auctions (heap st))(param \<mapsto> a\<lparr>currentBid := amt, currentBidderId := bidder,
               bids := bids a @ [\<lparr>amount = amt, bidderId = bidder, ts = clock (heap st)\<rparr>]\<rparr>)\<rparr>)"
    using assms(7,8) num_lt_not_le [OF assms(9)]
    by (simp add: bid_callback_def Let_def sanitizeAuction_def)
  show ?thesis using st2 rep by (simp add: assms(6) cb bid_catch_def)
qed

text \<open>The bid by charlie for 120 on the seeded auction 1, at clock reading 7.\<close>

theorem bid_accepted_witness:
  "\<exists>st1 st2 r.
     post_bid ''1'' (JNum (Fin 120)) (JStr ''charlie'') (InMemoryDB 7) = (Pending 0 bid_catch, st1)
     \<and> can_resume 0 st1
     \<and> findAuctionById (heap st1) (IdStr ''1'') = Some seed1
     \<and> run_resume 0 st1 = Some st2
     \<and> findAuctionById (heap st2) (IdStr ''1'') =
         Some (seed1\<lparr>currentBid := Fin 120, currentBidderId := JStr ''charlie'',
                     bids := [\<lparr>amount = Fin 120, bidderId = JStr ''charlie'', ts = 7\<rparr>]\<rparr>)
     \<and> phase (tasks st2 ! 0) = Holding (Settled r)
     \<and> map_option status_code (bid_catch r) = Some 201"
proof -
  obtain st1 where a: "post_bid ''1'' (JNum (Fin 120)) (JStr ''charlie'') (InMemoryDB 7) = (Pending 0 bid_catch, st1)"
    and b: "can_resume 0 st1" and c: "findAuctionById (heap st1) (IdStr ''1'') = Some seed1"
    and cl: "clock (heap st1) = 7"
    by (simp add: post_bid_def model_defs)
  have d: "tasks (InMemoryDB 7 :: response option state) = []" by (simp add: model_defs)
  have e: "exec [] st1 = Some st1" by simp
  from bid_accepted [OF a _ _ e _ c, unfolded d, simplified, OF b]
  obtain st2 r where "run_resume 0 st1 = Some st2"
     "heap st2 = (heap st1)\<lparr>auctions := (auctions (heap st1))(''1'' \<mapsto> seed1\<lparr>currentBid := Fin 120, currentBidderId := JStr ''charlie'',
                     bids := bids seed1 @ [\<lparr>amount = Fin 120, bidderId = JStr ''charlie'', ts = clock (heap st1)\<rparr>]\<rparr>)\<rparr>"
     "phase (tasks st2 ! 0) = Holding (Settled r)"
     "bid_catch r = Some \<lparr>status_code = 201, json = BidAccepted (seed1\<lparr>currentBid := Fin 120, currentBidderId := JStr ''charlie'',
                     bids := bids seed1 @ [\<lparr>amount = Fin 120, bidderId = JStr ''charlie'', ts = clock (heap st1)\<rparr>]\<rparr>)\<rparr>"
    by (auto simp: seed1_def strict_eq_def)
  then show ?thesis using a b c cl by (auto simp: findAuctionById_def seed1_def)
qed

text \<open>
  C6, as stated, fails: a bid by the owner is not answered 403 whatever the amount and
  the status. On the seeded auction 1, owned by alice, her bid of 0 is answered 400; once
  the auction has been notified, her bid of 150 is answered 409.
\<close>

theorem self_bid_not_always_forbidden:
  "(\<exists>a resp st. findAuctionById (heap (InMemoryDB 0 :: response option state)) (IdStr ''1'') = Some a
       \<and> ownerId a = JStr ''alice''
       \<and> serve (PostBid ''1'' (JNum (Fin 0)) (JStr ''alice'')) (InMemoryDB 0) = Some (Some resp, st)
       \<and> status_code resp = 400 \<and> status_code resp \<noteq> 403)
   \<and> (\<exists>r0 st1 a resp st2. serve (PostNotify ''1'') (InMemoryDB 0) = Some (r0, st1)
       \<and> findAuctionById (heap st1) (IdStr ''1'') = Some a
       \<and> ownerId a = JStr ''alice'' \<and> status a = ''notified''
       \<and> serve (PostBid ''1'' (JNum (Fin 150)) (JStr ''alice'')) st1 = Some (Some resp, st2)
       \<and> status_code resp = 409 \<and> status_code resp \<noteq> 403)"
  by (simp add: serve_def post_bid_def post_notify_def model_defs bid_callback_def
      notify_callback_def bid_catch_def notify_after_def strict_eq_def)

text \<open>
  C6, amended. The seeded \<open>currentBidderId\<close> is null, and in every state the program
  reaches from the seeded registry \<open>currentBidderId\<close> differs from \<open>ownerId\<close> for every
  auction. A bid whose bidder is the owner is never accepted and changes nothing: its
  transaction answers 403 when the auction is active and 409 when it is not, and a bid
  whose amount is not a finite positive number is answered 400 before the lock.
\<close>

theorem no_self_bid:
  assumes "app_exec es (InMemoryDB t0) = Some st"
  shows "(\<forall>k a. auctions (heap (InMemoryDB t0 :: response option state)) k = Some a \<longrightarrow> currentBidderId a = JNull)
    \<and> (\<forall>k a. auctions (heap st) k = Some a \<longrightarrow> currentBidderId a \<noteq> ownerId a)
    \<and> (\<forall>param amt bidder a.
          findAuctionById (heap st) (IdStr param) = Some a \<and> strict_eq (ownerId a) bidder \<longrightarrow>
          (\<exists>resp. bid_callback (IdStr param) amt bidder (Some a) (heap st) = (Settled (Inr (Some resp)), heap st)
             \<and> status_code resp = (if status a = ''active'' then 403 else 409)))
    \<and> (\<forall>param amt bidder. \<not> finite_positive amt \<longrightarrow>
          post_bid param amt bidder st
            = (Replied \<lparr>status_code = 400, json = ErrorBody ''amount must be a positive number''\<rparr>, st))"
proof (intro conjI allI impI)
  fix k a assume "auctions (heap (InMemoryDB t0 :: response option state)) k = Some a"
  then show "currentBidderId a = JNull"
    by (auto simp: InMemoryDB_def insertAuction_fields seed1_def seed2_def split: if_splits)
next
  fix k a assume a: "auctions (heap st) k = Some a"
  have "inv_heap (heap st)" using reachable_inv [OF assms(1)] by (simp add: app_inv_def)
  from inv_heap_cases [OF this a] show "currentBidderId a \<noteq> ownerId a"
    by (auto simp: tracks_def)
next
  fix param amt bidder a
  assume "findAuctionById (heap st) (IdStr param) = Some a \<and> strict_eq (ownerId a) bidder"
  then show "\<exists>resp. bid_callback (IdStr param) amt bidder (Some a) (heap st) = (Settled (Inr (Some resp)), heap st)
             \<and> status_code resp = (if status a = ''active'' then 403 else 409)"
    by (simp add: bid_callback_def)
next
  fix param amt bidder assume "\<not> finite_positive amt"
  then show "post_bid param amt bidder st
            = (Replied \<lparr>status_code = 400, json = ErrorBody ''amount must be a positive number''\<rparr>, st)"
    by (cases amt; cases "case amt of JNum n \<Rightarrow> n | _ \<Rightarrow> NaN") (auto simp: post_bid_def)
qed

text \<open>After charlie's bid is accepted, a bid by alice for 150 is answered 403.\<close>

theorem no_self_bid_witness:
  "\<exists>st a resp.
     app_exec [Request (PostBid ''1'' (JNum (Fin 120)) (JStr ''charlie'')), Resumed 0, Released 0]
        (InMemoryDB 0) = Some st
     \<and> auctions (heap st) ''1'' = Some a
     \<and> currentBidderId a = JStr ''charlie''
     \<and> currentBidderId a \<noteq> ownerId a
     \<and> bid_callback (IdStr ''1'') (Fin 150) (JStr ''alice'') (Some a) (heap st) = (Settled (Inr (Some resp)), heap st)
     \<and> status_code resp = 403"
proof -
  let ?es = "[Request (PostBid ''1'' (JNum (Fin 120)) (JStr ''charlie'')), Resumed 0, Released 0]"
  obtain st a where a: "app_exec ?es (InMemoryDB 0) = Some st" and b: "auctions (heap st) ''1'' = Some a"
    and c: "currentBidderId a = JStr ''charlie''" and d: "strict_eq (ownerId a) (JStr ''alice'')"
    and e: "status a = ''active''"
    by (simp add: model_defs post_bid_def bid_callback_def strict_eq_def)
  from no_self_bid [OF a] have
    f: "\<forall>k a. auctions (heap st) k = Some a \<longrightarrow> currentBidderId a \<noteq> ownerId a"
    and g: "\<forall>param amt bidder a.
          findAuctionById (heap st) (IdStr param) = Some a \<and> strict_eq (ownerId a) bidder \<longrightarrow>
          (\<exists>resp. bid_callback (IdStr param) amt bidder (Some a) (heap st) = (Settled (Inr (Some resp)), heap st)
             \<and> status_code resp = (if status a = ''active'' then 403 else 409))"
    by blast+
  from f b have h: "currentBidderId a \<noteq> ownerId a" by blast
  have "findAuctionById (heap st) (IdStr ''1'') = Some a" using b by (simp add: findAuctionById_def)
  with g d obtain resp where
    "bid_callback (IdStr ''1'') (Fin 150) (JStr ''alice'') (Some a) (heap st) = (Settled (Inr (Some resp)), heap st)"
    "status_code resp = (if status a = ''active'' then 403 else 409)"
    by blast
  with a b c h e show ?thesis by auto
qed




section \<open>The promise chain of a lock: one holder at a time, in arrival order\<close>

lemma boundsD:
  assumes "inv_bounds st"
  shows "t < length (tasks st) \<Longrightarrow> prev (tasks st ! t) < length (promises st)"
    and "t < length (tasks st) \<Longrightarrow> next_p (tasks st ! t) < length (promises st)"
    and "t < length (tasks st) \<Longrightarrow> locks st (lock_key (tasks st ! t)) \<noteq> None"
    and "locks st k = Some l \<Longrightarrow> lock_p l < length (promises st)"
    and "i < length (tasks st) \<Longrightarrow> j < length (tasks st) \<Longrightarrow>
         next_p (tasks st ! i) = next_p (tasks st ! j) \<Longrightarrow> i = j"
  using assms unfolding inv_bounds_def by blast+

lemma settledD:
  assumes "inv_settled st" "t < length (tasks st)"
  shows "promises st ! next_p (tasks st ! t) \<longleftrightarrow> is_Done (phase (tasks st ! t))"
    and "releases (tasks st ! t) = (if is_Done (phase (tasks st ! t)) then 1 else 0)"
  using assms unfolding inv_settled_def by blast+

lemma fifoD:
  assumes "inv_fifo st" "j < length (tasks st)" "i < j"
    "lock_key (tasks st ! i) = lock_key (tasks st ! j)" "phase (tasks st ! j) \<noteq> Waiting"
  shows "is_Done (phase (tasks st ! i))"
  using assms unfolding inv_fifo_def by blast

lemma chainD:
  assumes "inv_chain st"
  shows "m < length (tasks st) \<Longrightarrow> promises st ! prev (tasks st ! m) \<Longrightarrow> j < m \<Longrightarrow>
         lock_key (tasks st ! j) = lock_key (tasks st ! m) \<Longrightarrow> is_Done (phase (tasks st ! j))"
    and "locks st k = Some l \<Longrightarrow> promises st ! lock_p l \<Longrightarrow> j < length (tasks st) \<Longrightarrow>
         lock_key (tasks st ! j) = k \<Longrightarrow> is_Done (phase (tasks st ! j))"
    and "m < length (tasks st) \<Longrightarrow> i < length (tasks st) \<Longrightarrow>
         prev (tasks st ! m) = next_p (tasks st ! i) \<Longrightarrow>
         i < m \<and> lock_key (tasks st ! i) = lock_key (tasks st ! m)
         \<and> (\<forall>j. i < j \<and> j < m \<longrightarrow> lock_key (tasks st ! j) \<noteq> lock_key (tasks st ! m))"
    and "locks st k = Some l \<Longrightarrow> i < length (tasks st) \<Longrightarrow> lock_p l = next_p (tasks st ! i) \<Longrightarrow>
         lock_key (tasks st ! i) = k
         \<and> (\<forall>j. i < j \<and> j < length (tasks st) \<longrightarrow> lock_key (tasks st ! j) \<noteq> k)"
  using assms unfolding inv_chain_def by blast+

lemma lock_invD:
  assumes "lock_inv st"
  shows "inv_bounds st" "inv_settled st" "inv_fifo st" "inv_chain st" "inv_linked st"
  using assms by (simp_all add: lock_inv_def)

lemma resume_view:
  assumes "run_resume t st = Some st1"
  shows "length (tasks st1) = length (tasks st)" "promises st1 = promises st" "locks st1 = locks st"
    "t < length (tasks st)" "phase (tasks st ! t) = Waiting" "promises st ! prev (tasks st ! t)"
    "x < length (tasks st) \<Longrightarrow> lock_key (tasks st1 ! x) = lock_key (tasks st ! x)"
    "x < length (tasks st) \<Longrightarrow> prev (tasks st1 ! x) = prev (tasks st ! x)"
    "x < length (tasks st) \<Longrightarrow> next_p (tasks st1 ! x) = next_p (tasks st ! x)"
    "x < length (tasks st) \<Longrightarrow> releases (tasks st1 ! x) = releases (tasks st ! x)"
    "x < length (tasks st) \<Longrightarrow> x \<noteq> t \<Longrightarrow> phase (tasks st1 ! x) = phase (tasks st ! x)"
    "\<exists>r. phase (tasks st1 ! t) = Holding r"
  using run_resume_fields [OF assms]
  by (simp_all add: can_resume_def nth_update_if)

lemma finally_view:
  assumes "run_finally t st = Some st1"
  shows "length (tasks st1) = length (tasks st)"
    "promises st1 = (promises st)[next_p (tasks st ! t) := True]" "locks st1 = locks st"
    "t < length (tasks st)" "\<exists>r. phase (tasks st ! t) = Holding (Settled r)"
    "x < length (tasks st) \<Longrightarrow> lock_key (tasks st1 ! x) = lock_key (tasks st ! x)"
    "x < length (tasks st) \<Longrightarrow> prev (tasks st1 ! x) = prev (tasks st ! x)"
    "x < length (tasks st) \<Longrightarrow> next_p (tasks st1 ! x) = next_p (tasks st ! x)"
    "x < length (tasks st) \<Longrightarrow> x \<noteq> t \<Longrightarrow> releases (tasks st1 ! x) = releases (tasks st ! x)"
    "x < length (tasks st) \<Longrightarrow> x \<noteq> t \<Longrightarrow> phase (tasks st1 ! x) = phase (tasks st ! x)"
    "is_Done (phase (tasks st1 ! t))" "releases (tasks st1 ! t) = releases (tasks st ! t) + 1"
  using run_finally_fields [OF assms]
  by (auto simp: nth_update_if)

lemma chainI:
  assumes "\<And>m j. m < length (tasks st) \<Longrightarrow> promises st ! prev (tasks st ! m) \<Longrightarrow> j < m \<Longrightarrow>
         lock_key (tasks st ! j) = lock_key (tasks st ! m) \<Longrightarrow> is_Done (phase (tasks st ! j))"
    and "\<And>k l j. locks st k = Some l \<Longrightarrow> promises st ! lock_p l \<Longrightarrow> j < length (tasks st) \<Longrightarrow>
         lock_key (tasks st ! j) = k \<Longrightarrow> is_Done (phase (tasks st ! j))"
    and "\<And>m i. m < length (tasks st) \<Longrightarrow> i < length (tasks st) \<Longrightarrow>
         prev (tasks st ! m) = next_p (tasks st ! i) \<Longrightarrow>
         i < m \<and> lock_key (tasks st ! i) = lock_key (tasks st ! m)
         \<and> (\<forall>j. i < j \<and> j < m \<longrightarrow> lock_key (tasks st ! j) \<noteq> lock_key (tasks st ! m))"
    and "\<And>k l i. locks st k = Some l \<Longrightarrow> i < length (tasks st) \<Longrightarrow> lock_p l = next_p (tasks st ! i) \<Longrightarrow>
         lock_key (tasks st ! i) = k
         \<and> (\<forall>j. i < j \<and> j < length (tasks st) \<longrightarrow> lock_key (tasks st ! j) \<noteq> k)"
  shows "inv_chain st"
  unfolding inv_chain_def
  apply (intro conjI)
  subgoal using assms(1) by blast
  subgoal using assms(2) by blast
  subgoal using assms(3) by blast
  subgoal using assms(4) by blast
  done

lemma resume_bounds:
  assumes "lock_inv st" "run_resume t st = Some st1"
  shows "inv_bounds st1"
  unfolding inv_bounds_def resume_view(1,2,3) [OF assms(2)]
  using boundsD [OF lock_invD(1) [OF assms(1)]]
  by (simp add: resume_view(7,8,9) [OF assms(2)])

lemma resume_settled:
  assumes "lock_inv st" "run_resume t st = Some st1"
  shows "inv_settled st1"
  unfolding inv_settled_def resume_view(1,2,3) [OF assms(2)]
proof (intro allI impI)
  fix x assume x: "x < length (tasks st)"
  note v = resume_view [OF assms(2)]
  note s = settledD [OF lock_invD(2) [OF assms(1)]]
  show "promises st ! next_p (tasks st1 ! x) = is_Done (phase (tasks st1 ! x)) \<and>
         releases (tasks st1 ! x) = (if is_Done (phase (tasks st1 ! x)) then 1 else 0)"
  proof (cases "x = t")
    case True
    then show ?thesis using v(4,5,12) s [OF v(4)] v(9,10) [OF v(4)] by auto
  next
    case False
    then show ?thesis using s [OF x] v(9,10,11) [OF x] by simp
  qed
qed

lemma resume_fifo:
  assumes "lock_inv st" "run_resume t st = Some st1"
  shows "inv_fifo st1"
  unfolding inv_fifo_def resume_view(1) [OF assms(2)]
proof (intro allI impI, elim conjE)
  fix j i assume j: "j < length (tasks st)" and i: "i < j"
    and k: "lock_key (tasks st1 ! i) = lock_key (tasks st1 ! j)"
    and p: "phase (tasks st1 ! j) \<noteq> Waiting"
  note v = resume_view [OF assms(2)]
  have il: "i < length (tasks st)" using i j by simp
  have k0: "lock_key (tasks st ! i) = lock_key (tasks st ! j)" using k v(7) [OF il] v(7) [OF j] by simp
  have d: "is_Done (phase (tasks st ! i))"
  proof (cases "j = t")
    case True
    then show ?thesis using chainD(1) [OF lock_invD(4) [OF assms(1)] j _ i k0] v(6) by simp
  next
    case False
    then show ?thesis using fifoD [OF lock_invD(3) [OF assms(1)] j i k0] p v(11) [OF j] by simp
  qed
  then have "i \<noteq> t" using v(5) by auto
  then show "is_Done (phase (tasks st1 ! i))" using d v(11) [OF il] by simp
qed

lemma resume_chain:
  assumes "lock_inv st" "run_resume t st = Some st1"
  shows "inv_chain st1"
proof (rule chainI)
  note v = resume_view [OF assms(2)]
  note c = chainD [OF lock_invD(4) [OF assms(1)]]
  have mono: "is_Done (phase (tasks st1 ! x))"
    if "x < length (tasks st)" "is_Done (phase (tasks st ! x))" for x
    using that v(5) v(11) [OF that(1)] by (cases "x = t") auto
  {
    fix m j assume "m < length (tasks st1)" "promises st1 ! prev (tasks st1 ! m)" "j < m"
      "lock_key (tasks st1 ! j) = lock_key (tasks st1 ! m)"
    then show "is_Done (phase (tasks st1 ! j))"
      using c(1) [of m j] mono [of j] v(7,8) [of m] v(7) [of j] by (simp add: v(1,2,3))
  next
    fix k l j assume "locks st1 k = Some l" "promises st1 ! lock_p l" "j < length (tasks st1)"
      "lock_key (tasks st1 ! j) = k"
    then show "is_Done (phase (tasks st1 ! j))"
      using c(2) [of k l j] mono [of j] v(7) [of j] by (simp add: v(1,2,3))
  next
    fix m i assume a0: "m < length (tasks st1)" "i < length (tasks st1)"
      "prev (tasks st1 ! m) = next_p (tasks st1 ! i)"
    then have a: "m < length (tasks st)" "i < length (tasks st)" by (simp_all add: v(1))
    have "prev (tasks st ! m) = next_p (tasks st ! i)" using a0(3) a v(8) [of m] v(9) [of i] by simp
    from c(3) [OF a(1,2) this] have r: "i < m" "lock_key (tasks st ! i) = lock_key (tasks st ! m)"
      "\<forall>j. i < j \<and> j < m \<longrightarrow> lock_key (tasks st ! j) \<noteq> lock_key (tasks st ! m)" by blast+
    have "lock_key (tasks st1 ! j) \<noteq> lock_key (tasks st1 ! m)" if "i < j" "j < m" for j
      using r(3) that a(1) v(7) [of j] v(7) [of m] by simp
    then show "i < m \<and> lock_key (tasks st1 ! i) = lock_key (tasks st1 ! m) \<and>
       (\<forall>j. i < j \<and> j < m \<longrightarrow> lock_key (tasks st1 ! j) \<noteq> lock_key (tasks st1 ! m))"
      using r(1,2) a v(7) [of i] v(7) [of m] by simp
  next
    fix k l i assume a0: "locks st1 k = Some l" "i < length (tasks st1)" "lock_p l = next_p (tasks st1 ! i)"
    then have a: "locks st k = Some l" "i < length (tasks st)" by (simp_all add: v(1,3))
    have "lock_p l = next_p (tasks st ! i)" using a0(3) a v(9) [of i] by simp
    from c(4) [OF a(1,2) this] have r: "lock_key (tasks st ! i) = k"
      "\<forall>j. i < j \<and> j < length (tasks st) \<longrightarrow> lock_key (tasks st ! j) \<noteq> k" by blast+
    have "lock_key (tasks st1 ! j) \<noteq> k" if "i < j" "j < length (tasks st1)" for j
      using r(2) that v(7) [of j] by (simp add: v(1))
    then show "lock_key (tasks st1 ! i) = k \<and>
       (\<forall>j. i < j \<and> j < length (tasks st1) \<longrightarrow> lock_key (tasks st1 ! j) \<noteq> k)"
      using r(1) a v(7) [of i] by simp
  }
qed

lemma boundsI:
  assumes "\<And>t. t < length (tasks st) \<Longrightarrow> prev (tasks st ! t) < length (promises st)
          \<and> next_p (tasks st ! t) < length (promises st)
          \<and> locks st (lock_key (tasks st ! t)) \<noteq> None"
    and "\<And>k l. locks st k = Some l \<Longrightarrow> lock_p l < length (promises st)"
    and "\<And>i j. i < length (tasks st) \<Longrightarrow> j < length (tasks st) \<Longrightarrow>
           next_p (tasks st ! i) = next_p (tasks st ! j) \<Longrightarrow> i = j"
  shows "inv_bounds st"
  unfolding inv_bounds_def
  apply (intro conjI)
  subgoal using assms(1) by blast
  subgoal using assms(2) by blast
  subgoal using assms(3) by blast
  done

lemma settledI:
  assumes "\<And>t. t < length (tasks st) \<Longrightarrow>
        (promises st ! next_p (tasks st ! t) \<longleftrightarrow> is_Done (phase (tasks st ! t)))
        \<and> releases (tasks st ! t) = (if is_Done (phase (tasks st ! t)) then 1 else 0)"
  shows "inv_settled st"
  unfolding inv_settled_def using assms by blast

lemma fifoI:
  assumes "\<And>j i. j < length (tasks st) \<Longrightarrow> i < j \<Longrightarrow>
        lock_key (tasks st ! i) = lock_key (tasks st ! j) \<Longrightarrow> phase (tasks st ! j) \<noteq> Waiting
        \<Longrightarrow> is_Done (phase (tasks st ! i))"
  shows "inv_fifo st"
  unfolding inv_fifo_def using assms by blast

lemma finally_bounds:
  assumes "lock_inv st" "run_finally t st = Some st1"
  shows "inv_bounds st1"
  unfolding inv_bounds_def finally_view(1,2,3) [OF assms(2)]
  using boundsD [OF lock_invD(1) [OF assms(1)]]
  by (simp add: finally_view(6,7,8) [OF assms(2)])

lemma finally_settled:
  assumes "lock_inv st" "run_finally t st = Some st1"
  shows "inv_settled st1"
proof (rule settledI)
  note v = finally_view [OF assms(2)]
  note b = boundsD [OF lock_invD(1) [OF assms(1)]]
  note s = settledD [OF lock_invD(2) [OF assms(1)]]
  fix x assume "x < length (tasks st1)"
  then have x: "x < length (tasks st)" by (simp add: v(1))
  show "promises st1 ! next_p (tasks st1 ! x) = is_Done (phase (tasks st1 ! x)) \<and>
         releases (tasks st1 ! x) = (if is_Done (phase (tasks st1 ! x)) then 1 else 0)"
  proof (cases "x = t")
    case True
    then show ?thesis using v(5,11,12) s [OF v(4)] b(2) [OF v(4)] v(8) [OF v(4)]
      by (auto simp: v(2))
  next
    case False
    then have "next_p (tasks st ! x) \<noteq> next_p (tasks st ! t)" using b(5) [OF x v(4)] by blast
    then show ?thesis using False s [OF x] v(8,9,10) [OF x] by (simp add: v(2))
  qed
qed

lemma finally_fifo:
  assumes "lock_inv st" "run_finally t st = Some st1"
  shows "inv_fifo st1"
proof (rule fifoI)
  note v = finally_view [OF assms(2)]
  fix j i assume j0: "j < length (tasks st1)" and i: "i < j"
    and k: "lock_key (tasks st1 ! i) = lock_key (tasks st1 ! j)"
    and p: "phase (tasks st1 ! j) \<noteq> Waiting"
  have j: "j < length (tasks st)" using j0 by (simp add: v(1))
  have il: "i < length (tasks st)" using i j by simp
  have k0: "lock_key (tasks st ! i) = lock_key (tasks st ! j)" using k v(6) [OF il] v(6) [OF j] by simp
  have "phase (tasks st ! j) \<noteq> Waiting" using p v(5) v(10) [OF j] by (cases "j = t") auto
  from fifoD [OF lock_invD(3) [OF assms(1)] j i k0 this]
  show "is_Done (phase (tasks st1 ! i))" using v(11) v(10) [OF il] by (cases "i = t") auto
qed

lemma finally_chain:
  assumes "lock_inv st" "run_finally t st = Some st1"
  shows "inv_chain st1"
proof (rule chainI)
  note v = finally_view [OF assms(2)]
  note c = chainD [OF lock_invD(4) [OF assms(1)]]
  note b = boundsD [OF lock_invD(1) [OF assms(1)]]
  note f = fifoD [OF lock_invD(3) [OF assms(1)]]
  have mono: "is_Done (phase (tasks st1 ! x))"
    if "x < length (tasks st)" "is_Done (phase (tasks st ! x))" for x
    using that v(11) v(10) [OF that(1)] by (cases "x = t") auto
  have hold: "phase (tasks st ! t) \<noteq> Waiting" using v(5) by auto
  have before: "is_Done (phase (tasks st1 ! j))"
    if "j < length (tasks st)" "j \<le> t" "lock_key (tasks st ! j) = lock_key (tasks st ! t)" for j
  proof (cases "j = t")
    case True then show ?thesis using v(11) by simp
  next
    case False
    then have "j < t" using that(2) by simp
    from f [OF v(4) this that(3) hold] show ?thesis by (rule mono [OF that(1)])
  qed
  have pr: "promises st1 ! p \<Longrightarrow> p \<noteq> next_p (tasks st ! t) \<Longrightarrow> promises st ! p" for p
    by (simp add: v(2))
  {
    fix m j assume a0: "m < length (tasks st1)" "promises st1 ! prev (tasks st1 ! m)" "j < m"
      "lock_key (tasks st1 ! j) = lock_key (tasks st1 ! m)"
    then have m: "m < length (tasks st)" and j: "j < length (tasks st)" by (simp_all add: v(1))
    have k: "lock_key (tasks st ! j) = lock_key (tasks st ! m)" using a0(4) v(6) [OF m] v(6) [OF j] by simp
    have p1: "promises st1 ! prev (tasks st ! m)" using a0(2) v(7) [OF m] by simp
    show "is_Done (phase (tasks st1 ! j))"
    proof (cases "prev (tasks st ! m) = next_p (tasks st ! t)")
      case True
      from c(3) [OF m v(4) True] have r: "t < m" "lock_key (tasks st ! t) = lock_key (tasks st ! m)"
        "\<forall>j. t < j \<and> j < m \<longrightarrow> lock_key (tasks st ! j) \<noteq> lock_key (tasks st ! m)" by blast+
      have "\<not> t < j" using r(3) a0(3) k by blast
      then have "j \<le> t" by simp
      then show ?thesis using before [OF j] k r(2) by simp
    next
      case False
      from c(1) [OF m pr [OF p1 False] a0(3) k] show ?thesis by (rule mono [OF j])
    qed
  next
    fix k l j assume a0: "locks st1 k = Some l" "promises st1 ! lock_p l" "j < length (tasks st1)"
      "lock_key (tasks st1 ! j) = k"
    then have l: "locks st k = Some l" and j: "j < length (tasks st)" by (simp_all add: v(1,3))
    have k: "lock_key (tasks st ! j) = k" using a0(4) v(6) [OF j] by simp
    show "is_Done (phase (tasks st1 ! j))"
    proof (cases "lock_p l = next_p (tasks st ! t)")
      case True
      from c(4) [OF l v(4) True] have r: "lock_key (tasks st ! t) = k"
        "\<forall>j. t < j \<and> j < length (tasks st) \<longrightarrow> lock_key (tasks st ! j) \<noteq> k" by blast+
      have "\<not> t < j" using r(2) j k by blast
      then have "j \<le> t" by simp
      then show ?thesis using before [OF j] k r(1) by simp
    next
      case False
      from c(2) [OF l pr [OF a0(2) False] j k] show ?thesis by (rule mono [OF j])
    qed
  next
    fix m i assume a0: "m < length (tasks st1)" "i < length (tasks st1)"
      "prev (tasks st1 ! m) = next_p (tasks st1 ! i)"
    then have a: "m < length (tasks st)" "i < length (tasks st)" by (simp_all add: v(1))
    have "prev (tasks st ! m) = next_p (tasks st ! i)" using a0(3) a v(7) [of m] v(8) [of i] by simp
    from c(3) [OF a(1,2) this] have r: "i < m" "lock_key (tasks st ! i) = lock_key (tasks st ! m)"
      "\<forall>j. i < j \<and> j < m \<longrightarrow> lock_key (tasks st ! j) \<noteq> lock_key (tasks st ! m)" by blast+
    have "lock_key (tasks st1 ! j) \<noteq> lock_key (tasks st1 ! m)" if "i < j" "j < m" for j
      using r(3) that a(1) v(6) [of j] v(6) [of m] by simp
    then show "i < m \<and> lock_key (tasks st1 ! i) = lock_key (tasks st1 ! m) \<and>
       (\<forall>j. i < j \<and> j < m \<longrightarrow> lock_key (tasks st1 ! j) \<noteq> lock_key (tasks st1 ! m))"
      using r(1,2) a v(6) [of i] v(6) [of m] by simp
  next
    fix k l i assume a0: "locks st1 k = Some l" "i < length (tasks st1)" "lock_p l = next_p (tasks st1 ! i)"
    then have a: "locks st k = Some l" "i < length (tasks st)" by (simp_all add: v(1,3))
    have "lock_p l = next_p (tasks st ! i)" using a0(3) a v(8) [of i] by simp
    from c(4) [OF a(1,2) this] have r: "lock_key (tasks st ! i) = k"
      "\<forall>j. i < j \<and> j < length (tasks st) \<longrightarrow> lock_key (tasks st ! j) \<noteq> k" by blast+
    have "lock_key (tasks st1 ! j) \<noteq> k" if "i < j" "j < length (tasks st1)" for j
      using r(2) that v(6) [of j] by (simp add: v(1))
    then show "lock_key (tasks st1 ! i) = k \<and>
       (\<forall>j. i < j \<and> j < length (tasks st1) \<longrightarrow> lock_key (tasks st1 ! j) \<noteq> k)"
      using r(1) a v(6) [of i] by simp
  }
qed

lemma call_view:
  assumes "st1 = snd (withAuctionLock i fn st)"
  shows "length (tasks st1) = Suc (length (tasks st))"
    "x < length (tasks st) \<Longrightarrow> tasks st1 ! x = tasks st ! x"
    "lock_key (tasks st1 ! length (tasks st)) = js_String i"
    "phase (tasks st1 ! length (tasks st)) = Waiting"
    "releases (tasks st1 ! length (tasks st)) = 0"
    "length (promises st) \<le> next_p (tasks st1 ! length (tasks st))"
    "next_p (tasks st1 ! length (tasks st)) < length (promises st1)"
    "\<not> promises st1 ! next_p (tasks st1 ! length (tasks st))"
    "p < length (promises st) \<Longrightarrow> promises st1 ! p = promises st ! p"
    "locks st (js_String i) = None \<Longrightarrow> promises st1 ! length (promises st)
        \<and> next_p (tasks st1 ! length (tasks st)) = Suc (length (promises st))"
    "locks st1 = (locks st)(js_String i \<mapsto> \<lparr>lock_p = next_p (tasks st1 ! length (tasks st))\<rparr>)"
    "locks st (js_String i) = Some l \<Longrightarrow> prev (tasks st1 ! length (tasks st)) = lock_p l"
    "locks st (js_String i) = None \<Longrightarrow> prev (tasks st1 ! length (tasks st)) = length (promises st)"
  unfolding assms
  by (auto simp: withAuctionLock_fields nth_append split: option.splits)

lemma insert_view:
  "tasks (insertAuction a st) = tasks st"
  "p < length (promises st) \<Longrightarrow> promises (insertAuction a st) ! p = promises st ! p"
  "length (promises st) \<le> length (promises (insertAuction a st))"
  "locks (insertAuction a st) k = Some l \<Longrightarrow>
     locks st k = Some l \<or> (locks st k = None \<and> k = js_String (auction_id a)
        \<and> lock_p l = length (promises st))"
  "locks st k \<noteq> None \<Longrightarrow> locks (insertAuction a st) k \<noteq> None"
  by (auto simp: insertAuction_fields nth_append split: option.splits if_splits)

lemma insert_bounds:
  assumes "lock_inv st"
  shows "inv_bounds (insertAuction a st)"
proof (rule boundsI)
  note b = boundsD [OF lock_invD(1) [OF assms(1)]]
  note v = insert_view [where a = a and st = st]
  {
    fix t assume "t < length (tasks (insertAuction a st))"
    then have t: "t < length (tasks st)" by (simp add: v(1))
    show "prev (tasks (insertAuction a st) ! t) < length (promises (insertAuction a st))
          \<and> next_p (tasks (insertAuction a st) ! t) < length (promises (insertAuction a st))
          \<and> locks (insertAuction a st) (lock_key (tasks (insertAuction a st) ! t)) \<noteq> None"
      using b(1,2,3) [OF t] v(3) v(5) [of "lock_key (tasks st ! t)"] by (simp add: v(1))
  next
    fix k l assume "locks (insertAuction a st) k = Some l"
    from v(4) [OF this] show "lock_p l < length (promises (insertAuction a st))"
      using b(4) [of k l] v(3) by (auto simp: insertAuction_fields)
  next
    fix i j assume "i < length (tasks (insertAuction a st))" "j < length (tasks (insertAuction a st))"
      "next_p (tasks (insertAuction a st) ! i) = next_p (tasks (insertAuction a st) ! j)"
    then show "i = j" using b(5) [of i j] by (simp add: v(1))
  }
qed

lemma insert_settled:
  assumes "lock_inv st"
  shows "inv_settled (insertAuction a st)"
proof (rule settledI)
  note b = boundsD [OF lock_invD(1) [OF assms(1)]]
  note s = settledD [OF lock_invD(2) [OF assms(1)]]
  note v = insert_view [where a = a and st = st]
  fix t assume "t < length (tasks (insertAuction a st))"
  then have t: "t < length (tasks st)" by (simp add: v(1))
  show "promises (insertAuction a st) ! next_p (tasks (insertAuction a st) ! t)
          = is_Done (phase (tasks (insertAuction a st) ! t)) \<and>
        releases (tasks (insertAuction a st) ! t)
          = (if is_Done (phase (tasks (insertAuction a st) ! t)) then 1 else 0)"
    using s [OF t] v(2) [OF b(2) [OF t]] by (simp add: v(1))
qed

lemma insert_fifo:
  assumes "lock_inv st"
  shows "inv_fifo (insertAuction a st)"
  using lock_invD(3) [OF assms] by (simp add: inv_fifo_def insert_view(1))

lemma insert_chain:
  assumes "lock_inv st"
  shows "inv_chain (insertAuction a st)"
proof (rule chainI)
  note b = boundsD [OF lock_invD(1) [OF assms(1)]]
  note c = chainD [OF lock_invD(4) [OF assms(1)]]
  note v = insert_view [where a = a and st = st]
  let ?s = "insertAuction a st"
  {
    fix m j assume a0: "m < length (tasks ?s)" "promises ?s ! prev (tasks ?s ! m)" "j < m"
      "lock_key (tasks ?s ! j) = lock_key (tasks ?s ! m)"
    then have m: "m < length (tasks st)" by (simp add: v(1))
    have "promises st ! prev (tasks st ! m)" using a0(2) v(2) [OF b(1) [OF m]] by (simp add: v(1))
    from c(1) [OF m this a0(3)] a0(4) show "is_Done (phase (tasks ?s ! j))" by (simp add: v(1))
  next
    fix k l j assume a0: "locks ?s k = Some l" "promises ?s ! lock_p l" "j < length (tasks ?s)"
      "lock_key (tasks ?s ! j) = k"
    then have j: "j < length (tasks st)" and kj: "lock_key (tasks st ! j) = k" by (simp_all add: v(1))
    from v(4) [OF a0(1)] b(3) [OF j] kj have l: "locks st k = Some l" by auto
    have "promises st ! lock_p l" using a0(2) v(2) [OF b(4) [OF l]] by simp
    from c(2) [OF l this j kj] show "is_Done (phase (tasks ?s ! j))" by (simp add: v(1))
  next
    fix m i assume a0: "m < length (tasks ?s)" "i < length (tasks ?s)"
      "prev (tasks ?s ! m) = next_p (tasks ?s ! i)"
    then show "i < m \<and> lock_key (tasks ?s ! i) = lock_key (tasks ?s ! m) \<and>
       (\<forall>j. i < j \<and> j < m \<longrightarrow> lock_key (tasks ?s ! j) \<noteq> lock_key (tasks ?s ! m))"
      using c(3) [of m i] by (simp add: v(1))
  next
    fix k l i assume a0: "locks ?s k = Some l" "i < length (tasks ?s)" "lock_p l = next_p (tasks ?s ! i)"
    then have i: "i < length (tasks st)" and e: "lock_p l = next_p (tasks st ! i)" by (simp_all add: v(1))
    from v(4) [OF a0(1)] b(2) [OF i] e have l: "locks st k = Some l" by auto
    from c(4) [OF l i e] show "lock_key (tasks ?s ! i) = k \<and>
       (\<forall>j. i < j \<and> j < length (tasks ?s) \<longrightarrow> lock_key (tasks ?s ! j) \<noteq> k)"
      by (simp add: v(1))
  }
qed

lemma call_bounds:
  assumes "lock_inv st" "st1 = snd (withAuctionLock i fn st)"
  shows "inv_bounds st1"
proof (rule boundsI)
  note b = boundsD [OF lock_invD(1) [OF assms(1)]]
  note v = call_view [OF assms(2)]
  let ?n = "length (tasks st)"
  have old: "next_p (tasks st ! x) < next_p (tasks st1 ! ?n)" if "x < ?n" for x
    using b(2) [OF that] v(6) by simp
  have pn: "prev (tasks st1 ! ?n) < next_p (tasks st1 ! ?n)"
  proof (cases "locks st (js_String i)")
    case None
    then show ?thesis using v(10,13) by simp
  next
    case (Some l)
    then show ?thesis using v(12) [OF Some] b(4) [OF Some] v(6) by simp
  qed
  {
    fix t assume "t < length (tasks st1)"
    then consider "t < ?n" | "t = ?n" using v(1) by (auto simp: less_Suc_eq)
    then show "prev (tasks st1 ! t) < length (promises st1)
          \<and> next_p (tasks st1 ! t) < length (promises st1)
          \<and> locks st1 (lock_key (tasks st1 ! t)) \<noteq> None"
    proof cases
      case 1
      then show ?thesis using b(1,2,3) [OF 1] v(2) [OF 1] v(6,7) by (auto simp: v(11))
    next
      case 2
      then show ?thesis using v(3,7) pn by (auto simp: v(11))
    qed
  next
    fix k l assume "locks st1 k = Some l"
    then show "lock_p l < length (promises st1)"
      using b(4) [of k l] v(6,7) by (auto simp: v(11) split: if_splits)
  next
    fix x y assume a0: "x < length (tasks st1)" "y < length (tasks st1)"
      "next_p (tasks st1 ! x) = next_p (tasks st1 ! y)"
    then have "x \<le> ?n" "y \<le> ?n" using v(1) by simp_all
    then consider "x < ?n \<and> y < ?n" | "x = ?n \<and> y = ?n" | "x < ?n \<and> y = ?n" | "x = ?n \<and> y < ?n"
      by linarith
    then show "x = y"
    proof cases
      case 1 then show ?thesis using a0(3) b(5) [of x y] v(2) [of x] v(2) [of y] by simp
    next
      case 2 then show ?thesis by simp
    next
      case 3 then show ?thesis using a0(3) old [of x] v(2) [of x] by simp
    next
      case 4 then show ?thesis using a0(3) old [of y] v(2) [of y] by simp
    qed
  }
qed

lemma call_settled:
  assumes "lock_inv st" "st1 = snd (withAuctionLock i fn st)"
  shows "inv_settled st1"
proof (rule settledI)
  note b = boundsD [OF lock_invD(1) [OF assms(1)]]
  note s = settledD [OF lock_invD(2) [OF assms(1)]]
  note v = call_view [OF assms(2)]
  let ?n = "length (tasks st)"
  fix t assume "t < length (tasks st1)"
  then consider "t < ?n" | "t = ?n" using v(1) by (auto simp: less_Suc_eq)
  then show "promises st1 ! next_p (tasks st1 ! t) = is_Done (phase (tasks st1 ! t)) \<and>
        releases (tasks st1 ! t) = (if is_Done (phase (tasks st1 ! t)) then 1 else 0)"
  proof cases
    case 1
    then show ?thesis using s [OF 1] v(2) [OF 1] v(9) [OF b(2) [OF 1]] by simp
  next
    case 2
    then show ?thesis using v(4,5,8) by simp
  qed
qed

lemma call_fifo:
  assumes "lock_inv st" "st1 = snd (withAuctionLock i fn st)"
  shows "inv_fifo st1"
proof (rule fifoI)
  note v = call_view [OF assms(2)]
  let ?n = "length (tasks st)"
  fix j x assume a0: "j < length (tasks st1)" "x < j"
    "lock_key (tasks st1 ! x) = lock_key (tasks st1 ! j)" "phase (tasks st1 ! j) \<noteq> Waiting"
  then have "j \<noteq> ?n" using v(4) by auto
  then have j: "j < ?n" using a0(1) v(1) by simp
  then have x: "x < ?n" using a0(2) by simp
  from fifoD [OF lock_invD(3) [OF assms(1)] j a0(2)] a0(3,4)
  show "is_Done (phase (tasks st1 ! x))" by (simp add: v(2) [OF j] v(2) [OF x])
qed

lemma call_chain:
  assumes "lock_inv st" "st1 = snd (withAuctionLock i fn st)"
  shows "inv_chain st1"
proof (rule chainI)
  note b = boundsD [OF lock_invD(1) [OF assms(1)]]
  note c = chainD [OF lock_invD(4) [OF assms(1)]]
  note v = call_view [OF assms(2)]
  let ?n = "length (tasks st)"
  let ?k = "js_String i"
  have old: "next_p (tasks st ! x) < next_p (tasks st1 ! ?n)" if "x < ?n" for x
    using b(2) [OF that] v(6) by simp
  have pn: "prev (tasks st1 ! ?n) < next_p (tasks st1 ! ?n)"
  proof (cases "locks st ?k")
    case None
    then show ?thesis using v(10,13) by simp
  next
    case (Some l)
    then show ?thesis using v(12) [OF Some] b(4) [OF Some] v(6) by simp
  qed
  have granted: "is_Done (phase (tasks st ! j))"
    if "promises st1 ! prev (tasks st1 ! ?n)" "j < ?n" "lock_key (tasks st ! j) = ?k" for j
  proof (cases "locks st ?k")
    case None
    then show ?thesis using b(3) [OF that(2)] that(3) by simp
  next
    case (Some l)
    have "promises st ! lock_p l" using that(1) v(12) [OF Some] v(9) [OF b(4) [OF Some]] by simp
    from c(2) [OF Some this that(2,3)] show ?thesis .
  qed
  have tail: "lock_key (tasks st ! x) = ?k \<and> (\<forall>j. x < j \<and> j < ?n \<longrightarrow> lock_key (tasks st ! j) \<noteq> ?k)"
    if "x < ?n" "prev (tasks st1 ! ?n) = next_p (tasks st ! x)" for x
  proof (cases "locks st ?k")
    case None
    then show ?thesis using b(2) [OF that(1)] that(2) v(13) by simp
  next
    case (Some l)
    have "lock_p l = next_p (tasks st ! x)" using that(2) v(12) [OF Some] by simp
    from c(4) [OF Some that(1) this] show ?thesis .
  qed
  {
    fix m j assume a0: "m < length (tasks st1)" "promises st1 ! prev (tasks st1 ! m)" "j < m"
      "lock_key (tasks st1 ! j) = lock_key (tasks st1 ! m)"
    then consider "m < ?n" | "m = ?n" using v(1) by (auto simp: less_Suc_eq)
    then show "is_Done (phase (tasks st1 ! j))"
    proof cases
      case 1
      then have j: "j < ?n" using a0(3) by simp
      have "promises st ! prev (tasks st ! m)" using a0(2) v(2) [OF 1] v(9) [OF b(1) [OF 1]] by simp
      from c(1) [OF 1 this a0(3)] a0(4) show ?thesis by (simp add: v(2) [OF 1] v(2) [OF j])
    next
      case 2
      then have j: "j < ?n" using a0(3) by simp
      show ?thesis using granted [of j] a0(2,4) 2 j v(3) by (simp add: v(2) [OF j])
    qed
  next
    fix k l j assume a0: "locks st1 k = Some l" "promises st1 ! lock_p l" "j < length (tasks st1)"
      "lock_key (tasks st1 ! j) = k"
    have kk: "k \<noteq> ?k" using a0(1,2) v(8) by (auto simp: v(11) split: if_splits)
    then have l: "locks st k = Some l" using a0(1) by (simp add: v(11))
    have "j \<noteq> ?n" using a0(4) kk v(3) by auto
    then have j: "j < ?n" using a0(3) v(1) by simp
    have "promises st ! lock_p l" using a0(2) v(9) [OF b(4) [OF l]] by simp
    from c(2) [OF l this j] a0(4) show "is_Done (phase (tasks st1 ! j))" by (simp add: v(2) [OF j])
  next
    fix m x assume a0: "m < length (tasks st1)" "x < length (tasks st1)"
      "prev (tasks st1 ! m) = next_p (tasks st1 ! x)"
    then have "m \<le> ?n" "x \<le> ?n" using v(1) by simp_all
    then consider "m < ?n \<and> x < ?n" | "m = ?n \<and> x = ?n" | "m < ?n \<and> x = ?n" | "m = ?n \<and> x < ?n"
      by linarith
    then show "x < m \<and> lock_key (tasks st1 ! x) = lock_key (tasks st1 ! m) \<and>
       (\<forall>j. x < j \<and> j < m \<longrightarrow> lock_key (tasks st1 ! j) \<noteq> lock_key (tasks st1 ! m))"
    proof cases
      case 1
      then have e: "prev (tasks st ! m) = next_p (tasks st ! x)" using a0(3) v(2) [of m] v(2) [of x] by simp
      from c(3) [OF _ _ e] 1 have r: "x < m" "lock_key (tasks st ! x) = lock_key (tasks st ! m)"
        "\<forall>j. x < j \<and> j < m \<longrightarrow> lock_key (tasks st ! j) \<noteq> lock_key (tasks st ! m)" by blast+
      have "lock_key (tasks st1 ! j) \<noteq> lock_key (tasks st1 ! m)" if "x < j" "j < m" for j
        using r(3) that 1 v(2) [of j] v(2) [of m] by simp
      then show ?thesis using r(1,2) 1 v(2) [of x] v(2) [of m] by simp
    next
      case 2
      then show ?thesis using a0(3) pn by simp
    next
      case 3
      then show ?thesis using a0(3) b(1) [of m] v(6) v(2) [of m] by simp
    next
      case 4
      then have e: "prev (tasks st1 ! ?n) = next_p (tasks st ! x)" using a0(3) v(2) [of x] by simp
      from tail [OF _ e] 4 have r: "lock_key (tasks st ! x) = ?k"
        "\<forall>j. x < j \<and> j < ?n \<longrightarrow> lock_key (tasks st ! j) \<noteq> ?k" by blast+
      have "lock_key (tasks st1 ! j) \<noteq> ?k" if "x < j" "j < ?n" for j
        using r(2) that v(2) [of j] by simp
      then show ?thesis using r(1) 4 v(2) [of x] v(3) by simp
    qed
  next
    fix k l x assume a0: "locks st1 k = Some l" "x < length (tasks st1)" "lock_p l = next_p (tasks st1 ! x)"
    show "lock_key (tasks st1 ! x) = k \<and>
       (\<forall>j. x < j \<and> j < length (tasks st1) \<longrightarrow> lock_key (tasks st1 ! j) \<noteq> k)"
    proof (cases "k = ?k")
      case True
      then have e: "next_p (tasks st1 ! x) = next_p (tasks st1 ! ?n)" using a0(1,3) by (auto simp: v(11))
      have "x = ?n"
      proof (rule ccontr)
        assume "x \<noteq> ?n"
        then have "x < ?n" using a0(2) v(1) by simp
        then show False using old [of x] e v(2) [of x] by simp
      qed
      then show ?thesis using True v(1,3) by auto
    next
      case False
      then have l: "locks st k = Some l" using a0(1) by (simp add: v(11))
      have "x \<noteq> ?n" using a0(3) b(4) [OF l] v(6) by auto
      then have x: "x < ?n" using a0(2) v(1) by simp
      have e: "lock_p l = next_p (tasks st ! x)" using a0(3) v(2) [OF x] by simp
      from c(4) [OF l x e] have r: "lock_key (tasks st ! x) = k"
        "\<forall>j. x < j \<and> j < ?n \<longrightarrow> lock_key (tasks st ! j) \<noteq> k" by blast+
      have "lock_key (tasks st1 ! j) \<noteq> k" if "x < j" "j < length (tasks st1)" for j
      proof (cases "j = ?n")
        case True then show ?thesis using False v(3) by simp
      next
        case False
        then have "j < ?n" using that(2) v(1) by simp
        then show ?thesis using r(2) that(1) v(2) [of j] by simp
      qed
      then show ?thesis using r(1) v(2) [OF x] by simp
    qed
  }
qed

lemma linkedD:
  assumes "inv_linked st"
  shows "m < length (tasks st) \<Longrightarrow> promises st ! prev (tasks st ! m)
         \<or> (\<exists>i < m. prev (tasks st ! m) = next_p (tasks st ! i))"
    and "locks st k = Some l \<Longrightarrow> promises st ! lock_p l
         \<or> (\<exists>i < length (tasks st). lock_p l = next_p (tasks st ! i))"
  using assms unfolding inv_linked_def by blast+

lemma linkedI:
  assumes "\<And>m. m < length (tasks st) \<Longrightarrow> promises st ! prev (tasks st ! m)
         \<or> (\<exists>i < m. prev (tasks st ! m) = next_p (tasks st ! i))"
    and "\<And>k l. locks st k = Some l \<Longrightarrow> promises st ! lock_p l
         \<or> (\<exists>i < length (tasks st). lock_p l = next_p (tasks st ! i))"
  shows "inv_linked st"
  unfolding inv_linked_def using assms by blast

lemma resume_linked:
  assumes "lock_inv st" "run_resume t st = Some st1"
  shows "inv_linked st1"
proof (rule linkedI)
  note v = resume_view [OF assms(2)]
  note k = linkedD [OF lock_invD(5) [OF assms(1)]]
  {
    fix m assume "m < length (tasks st1)"
    then have m: "m < length (tasks st)" by (simp add: v(1))
    from k(1) [OF m] show "promises st1 ! prev (tasks st1 ! m)
         \<or> (\<exists>i < m. prev (tasks st1 ! m) = next_p (tasks st1 ! i))"
    proof
      assume "promises st ! prev (tasks st ! m)"
      then show ?thesis using v(8) [OF m] by (simp add: v(2))
    next
      assume "\<exists>i<m. prev (tasks st ! m) = next_p (tasks st ! i)"
      then obtain i where i: "i < m" "prev (tasks st ! m) = next_p (tasks st ! i)" by blast
      then have "prev (tasks st1 ! m) = next_p (tasks st1 ! i)" using m v(8) [OF m] v(9) [of i] by simp
      then show ?thesis using i(1) by blast
    qed
  next
    fix k0 l assume "locks st1 k0 = Some l"
    then have l: "locks st k0 = Some l" by (simp add: v(3))
    from k(2) [OF l] show "promises st1 ! lock_p l
         \<or> (\<exists>i < length (tasks st1). lock_p l = next_p (tasks st1 ! i))"
    proof
      assume "promises st ! lock_p l"
      then show ?thesis by (simp add: v(2))
    next
      assume "\<exists>i<length (tasks st). lock_p l = next_p (tasks st ! i)"
      then obtain i where i: "i < length (tasks st)" "lock_p l = next_p (tasks st ! i)" by blast
      then have "lock_p l = next_p (tasks st1 ! i)" using v(9) [OF i(1)] by simp
      then show ?thesis using i(1) v(1) by auto
    qed
  }
qed

lemma finally_linked:
  assumes "lock_inv st" "run_finally t st = Some st1"
  shows "inv_linked st1"
proof (rule linkedI)
  note v = finally_view [OF assms(2)]
  note k = linkedD [OF lock_invD(5) [OF assms(1)]]
  note b = boundsD [OF lock_invD(1) [OF assms(1)]]
  have pr: "promises st1 ! p" if "promises st ! p" "p < length (promises st)" for p
    using that by (simp add: v(2) nth_update_if)
  {
    fix m assume "m < length (tasks st1)"
    then have m: "m < length (tasks st)" by (simp add: v(1))
    from k(1) [OF m] show "promises st1 ! prev (tasks st1 ! m)
         \<or> (\<exists>i < m. prev (tasks st1 ! m) = next_p (tasks st1 ! i))"
    proof
      assume "promises st ! prev (tasks st ! m)"
      then show ?thesis using v(7) [OF m] pr [OF _ b(1) [OF m]] by simp
    next
      assume "\<exists>i<m. prev (tasks st ! m) = next_p (tasks st ! i)"
      then obtain i where i: "i < m" "prev (tasks st ! m) = next_p (tasks st ! i)" by blast
      then have "prev (tasks st1 ! m) = next_p (tasks st1 ! i)" using m v(7) [OF m] v(8) [of i] by simp
      then show ?thesis using i(1) by blast
    qed
  next
    fix k0 l assume "locks st1 k0 = Some l"
    then have l: "locks st k0 = Some l" by (simp add: v(3))
    from k(2) [OF l] show "promises st1 ! lock_p l
         \<or> (\<exists>i < length (tasks st1). lock_p l = next_p (tasks st1 ! i))"
    proof
      assume "promises st ! lock_p l"
      then show ?thesis using pr [OF _ b(4) [OF l]] by simp
    next
      assume "\<exists>i<length (tasks st). lock_p l = next_p (tasks st ! i)"
      then obtain i where i: "i < length (tasks st)" "lock_p l = next_p (tasks st ! i)" by blast
      then have "lock_p l = next_p (tasks st1 ! i)" using v(8) [OF i(1)] by simp
      then show ?thesis using i(1) v(1) by auto
    qed
  }
qed

lemma insert_linked:
  assumes "lock_inv st"
  shows "inv_linked (insertAuction a st)"
proof (rule linkedI)
  note v = insert_view [where a = a and st = st]
  note k = linkedD [OF lock_invD(5) [OF assms(1)]]
  note b = boundsD [OF lock_invD(1) [OF assms(1)]]
  let ?s = "insertAuction a st"
  {
    fix m assume "m < length (tasks ?s)"
    then have m: "m < length (tasks st)" by (simp add: v(1))
    from k(1) [OF m] show "promises ?s ! prev (tasks ?s ! m)
         \<or> (\<exists>i < m. prev (tasks ?s ! m) = next_p (tasks ?s ! i))"
      using v(2) [OF b(1) [OF m]] by (simp add: v(1))
  next
    fix k0 l assume "locks ?s k0 = Some l"
    from v(4) [OF this] show "promises ?s ! lock_p l
         \<or> (\<exists>i < length (tasks ?s). lock_p l = next_p (tasks ?s ! i))"
    proof
      assume l: "locks st k0 = Some l"
      from k(2) [OF l] show ?thesis using v(2) [OF b(4) [OF l]] by (simp add: v(1))
    next
      assume "locks st k0 = None \<and> k0 = js_String (auction_id a) \<and> lock_p l = length (promises st)"
      then have "promises ?s ! lock_p l" by (auto simp: insertAuction_fields)
      then show ?thesis by blast
    qed
  }
qed

lemma call_linked:
  assumes "lock_inv st" "st1 = snd (withAuctionLock i fn st)"
  shows "inv_linked st1"
proof (rule linkedI)
  note v = call_view [OF assms(2)]
  note k = linkedD [OF lock_invD(5) [OF assms(1)]]
  note b = boundsD [OF lock_invD(1) [OF assms(1)]]
  let ?n = "length (tasks st)"
  {
    fix m assume "m < length (tasks st1)"
    then consider "m < ?n" | "m = ?n" using v(1) by (auto simp: less_Suc_eq)
    then show "promises st1 ! prev (tasks st1 ! m)
         \<or> (\<exists>x < m. prev (tasks st1 ! m) = next_p (tasks st1 ! x))"
    proof cases
      case 1
      from k(1) [OF 1] show ?thesis
      proof
        assume "promises st ! prev (tasks st ! m)"
        then show ?thesis using v(2) [OF 1] v(9) [OF b(1) [OF 1]] by simp
      next
        assume "\<exists>x<m. prev (tasks st ! m) = next_p (tasks st ! x)"
        then obtain x where x: "x < m" "prev (tasks st ! m) = next_p (tasks st ! x)" by blast
        then have "prev (tasks st1 ! m) = next_p (tasks st1 ! x)" using 1 v(2) [OF 1] v(2) [of x] by simp
        then show ?thesis using x(1) by blast
      qed
    next
      case 2
      show ?thesis
      proof (cases "locks st (js_String i)")
        case None
        then show ?thesis using 2 v(10,13) by simp
      next
        case (Some l)
        from k(2) [OF Some] show ?thesis
        proof
          assume "promises st ! lock_p l"
          then show ?thesis using 2 v(12) [OF Some] v(9) [OF b(4) [OF Some]] by simp
        next
          assume "\<exists>x<?n. lock_p l = next_p (tasks st ! x)"
          then obtain x where x: "x < ?n" "lock_p l = next_p (tasks st ! x)" by blast
          then have "prev (tasks st1 ! m) = next_p (tasks st1 ! x)" using 2 v(12) [OF Some] v(2) [OF x(1)] by simp
          then show ?thesis using x(1) 2 by blast
        qed
      qed
    qed
  next
    fix k0 l assume a0: "locks st1 k0 = Some l"
    show "promises st1 ! lock_p l
         \<or> (\<exists>x < length (tasks st1). lock_p l = next_p (tasks st1 ! x))"
    proof (cases "k0 = js_String i")
      case True
      then have "lock_p l = next_p (tasks st1 ! ?n)" using a0 by (auto simp: v(11))
      then show ?thesis using v(1) by auto
    next
      case False
      then have l: "locks st k0 = Some l" using a0 by (simp add: v(11))
      from k(2) [OF l] show ?thesis
      proof
        assume "promises st ! lock_p l"
        then show ?thesis using v(9) [OF b(4) [OF l]] by simp
      next
        assume "\<exists>x<?n. lock_p l = next_p (tasks st ! x)"
        then obtain x where x: "x < ?n" "lock_p l = next_p (tasks st ! x)" by blast
        then have "lock_p l = next_p (tasks st1 ! x)" using v(2) [OF x(1)] by simp
        moreover have "x < length (tasks st1)" using x(1) v(1) by simp
        ultimately show ?thesis by blast
      qed
    qed
  }
qed

lemma lock_inv_init: "lock_inv (InMemoryDB t0)"
  by (simp add: lock_inv_def inv_bounds_def inv_settled_def inv_fifo_def inv_chain_def inv_linked_def
      InMemoryDB_def insertAuction_fields)

lemma lock_inv_tick: "lock_inv st \<Longrightarrow> lock_inv (st\<lparr>heap := h\<rparr>)"
  by (simp add: lock_inv_def inv_bounds_def inv_settled_def inv_fifo_def inv_chain_def inv_linked_def)

lemma continue_view:
  assumes "run_continue t st = Some st1"
  shows "length (tasks st1) = length (tasks st)" "promises st1 = promises st" "locks st1 = locks st"
    "t < length (tasks st)" "\<exists>k. phase (tasks st ! t) = Holding (Suspended k)" "heap st1 = heap st1"
    "x < length (tasks st) \<Longrightarrow> lock_key (tasks st1 ! x) = lock_key (tasks st ! x)"
    "x < length (tasks st) \<Longrightarrow> prev (tasks st1 ! x) = prev (tasks st ! x)"
    "x < length (tasks st) \<Longrightarrow> next_p (tasks st1 ! x) = next_p (tasks st ! x)"
    "x < length (tasks st) \<Longrightarrow> releases (tasks st1 ! x) = releases (tasks st ! x)"
    "x < length (tasks st) \<Longrightarrow> x \<noteq> t \<Longrightarrow> phase (tasks st1 ! x) = phase (tasks st ! x)"
    "\<exists>r. phase (tasks st1 ! t) = Holding r"
  using run_continue_fields [OF assms]
  by (auto simp: nth_update_if)

lemma continue_bounds:
  assumes "lock_inv st" "run_continue t st = Some st1"
  shows "inv_bounds st1"
  unfolding inv_bounds_def continue_view(1,2,3) [OF assms(2)]
  using boundsD [OF lock_invD(1) [OF assms(1)]]
  by (simp add: continue_view(7,8,9) [OF assms(2)])

lemma continue_settled:
  assumes "lock_inv st" "run_continue t st = Some st1"
  shows "inv_settled st1"
  unfolding inv_settled_def continue_view(1,2,3) [OF assms(2)]
proof (intro allI impI)
  fix x assume x: "x < length (tasks st)"
  note v = continue_view [OF assms(2)]
  note s = settledD [OF lock_invD(2) [OF assms(1)]]
  show "promises st ! next_p (tasks st1 ! x) = is_Done (phase (tasks st1 ! x)) \<and>
         releases (tasks st1 ! x) = (if is_Done (phase (tasks st1 ! x)) then 1 else 0)"
  proof (cases "x = t")
    case True
    then show ?thesis using v(4,5,12) s [OF v(4)] v(9,10) [OF v(4)] by auto
  next
    case False
    then show ?thesis using s [OF x] v(9,10,11) [OF x] by simp
  qed
qed

lemma continue_fifo:
  assumes "lock_inv st" "run_continue t st = Some st1"
  shows "inv_fifo st1"
  unfolding inv_fifo_def continue_view(1) [OF assms(2)]
proof (intro allI impI, elim conjE)
  fix j i assume j: "j < length (tasks st)" and i: "i < j"
    and k: "lock_key (tasks st1 ! i) = lock_key (tasks st1 ! j)"
    and p: "phase (tasks st1 ! j) \<noteq> Waiting"
  note v = continue_view [OF assms(2)]
  have il: "i < length (tasks st)" using i j by simp
  have k0: "lock_key (tasks st ! i) = lock_key (tasks st ! j)" using k v(7) [OF il] v(7) [OF j] by simp
  have d: "is_Done (phase (tasks st ! i))"
  proof (cases "j = t")
    case True
    then show ?thesis using fifoD [OF lock_invD(3) [OF assms(1)] j i k0] v(5) by auto
  next
    case False
    then show ?thesis using fifoD [OF lock_invD(3) [OF assms(1)] j i k0] p v(11) [OF j] by simp
  qed
  then have "i \<noteq> t" using v(5) by auto
  then show "is_Done (phase (tasks st1 ! i))" using d v(11) [OF il] by simp
qed

lemma continue_chain:
  assumes "lock_inv st" "run_continue t st = Some st1"
  shows "inv_chain st1"
proof (rule chainI)
  note v = continue_view [OF assms(2)]
  note c = chainD [OF lock_invD(4) [OF assms(1)]]
  have mono: "is_Done (phase (tasks st1 ! x))"
    if "x < length (tasks st)" "is_Done (phase (tasks st ! x))" for x
    using that v(5) v(11) [OF that(1)] by (cases "x = t") auto
  {
    fix m j assume "m < length (tasks st1)" "promises st1 ! prev (tasks st1 ! m)" "j < m"
      "lock_key (tasks st1 ! j) = lock_key (tasks st1 ! m)"
    then show "is_Done (phase (tasks st1 ! j))"
      using c(1) [of m j] mono [of j] v(7,8) [of m] v(7) [of j] by (simp add: v(1,2,3))
  next
    fix k l j assume "locks st1 k = Some l" "promises st1 ! lock_p l" "j < length (tasks st1)"
      "lock_key (tasks st1 ! j) = k"
    then show "is_Done (phase (tasks st1 ! j))"
      using c(2) [of k l j] mono [of j] v(7) [of j] by (simp add: v(1,2,3))
  next
    fix m i assume a0: "m < length (tasks st1)" "i < length (tasks st1)"
      "prev (tasks st1 ! m) = next_p (tasks st1 ! i)"
    then have a: "m < length (tasks st)" "i < length (tasks st)" by (simp_all add: v(1))
    have "prev (tasks st ! m) = next_p (tasks st ! i)" using a0(3) a v(8) [of m] v(9) [of i] by simp
    from c(3) [OF a(1,2) this] have r: "i < m" "lock_key (tasks st ! i) = lock_key (tasks st ! m)"
      "\<forall>j. i < j \<and> j < m \<longrightarrow> lock_key (tasks st ! j) \<noteq> lock_key (tasks st ! m)" by blast+
    have "lock_key (tasks st1 ! j) \<noteq> lock_key (tasks st1 ! m)" if "i < j" "j < m" for j
      using r(3) that a(1) v(7) [of j] v(7) [of m] by simp
    then show "i < m \<and> lock_key (tasks st1 ! i) = lock_key (tasks st1 ! m) \<and>
       (\<forall>j. i < j \<and> j < m \<longrightarrow> lock_key (tasks st1 ! j) \<noteq> lock_key (tasks st1 ! m))"
      using r(1,2) a v(7) [of i] v(7) [of m] by simp
  next
    fix k l i assume a0: "locks st1 k = Some l" "i < length (tasks st1)" "lock_p l = next_p (tasks st1 ! i)"
    then have a: "locks st k = Some l" "i < length (tasks st)" by (simp_all add: v(1,3))
    have "lock_p l = next_p (tasks st ! i)" using a0(3) a v(9) [of i] by simp
    from c(4) [OF a(1,2) this] have r: "lock_key (tasks st ! i) = k"
      "\<forall>j. i < j \<and> j < length (tasks st) \<longrightarrow> lock_key (tasks st ! j) \<noteq> k" by blast+
    have "lock_key (tasks st1 ! j) \<noteq> k" if "i < j" "j < length (tasks st1)" for j
      using r(2) that v(7) [of j] by (simp add: v(1))
    then show "lock_key (tasks st1 ! i) = k \<and>
       (\<forall>j. i < j \<and> j < length (tasks st1) \<longrightarrow> lock_key (tasks st1 ! j) \<noteq> k)"
      using r(1) a v(7) [of i] by simp
  }
qed

lemma continue_linked:
  assumes "lock_inv st" "run_continue t st = Some st1"
  shows "inv_linked st1"
proof (rule linkedI)
  note v = continue_view [OF assms(2)]
  note k = linkedD [OF lock_invD(5) [OF assms(1)]]
  {
    fix m assume "m < length (tasks st1)"
    then have m: "m < length (tasks st)" by (simp add: v(1))
    from k(1) [OF m] show "promises st1 ! prev (tasks st1 ! m)
         \<or> (\<exists>i < m. prev (tasks st1 ! m) = next_p (tasks st1 ! i))"
    proof
      assume "promises st ! prev (tasks st ! m)"
      then show ?thesis using v(8) [OF m] by (simp add: v(2))
    next
      assume "\<exists>i<m. prev (tasks st ! m) = next_p (tasks st ! i)"
      then obtain i where i: "i < m" "prev (tasks st ! m) = next_p (tasks st ! i)" by blast
      then have "prev (tasks st1 ! m) = next_p (tasks st1 ! i)" using m v(8) [OF m] v(9) [of i] by simp
      then show ?thesis using i(1) by blast
    qed
  next
    fix k0 l assume "locks st1 k0 = Some l"
    then have l: "locks st k0 = Some l" by (simp add: v(3))
    from k(2) [OF l] show "promises st1 ! lock_p l
         \<or> (\<exists>i < length (tasks st1). lock_p l = next_p (tasks st1 ! i))"
    proof
      assume "promises st ! lock_p l"
      then show ?thesis by (simp add: v(2))
    next
      assume "\<exists>i<length (tasks st). lock_p l = next_p (tasks st ! i)"
      then obtain i where i: "i < length (tasks st)" "lock_p l = next_p (tasks st ! i)" by blast
      then have "lock_p l = next_p (tasks st1 ! i)" using v(9) [OF i(1)] by simp
      then show ?thesis using i(1) v(1) by auto
    qed
  }
qed

lemma lock_inv_step:
  assumes "lock_inv st" "step e st = Some st1"
  shows "lock_inv st1"
proof (cases e)
  case (Call i fn)
  then have s: "st1 = snd (withAuctionLock i fn st)" using assms(2) by simp
  show ?thesis unfolding lock_inv_def
    using call_bounds [OF assms(1) s] call_settled [OF assms(1) s] call_fifo [OF assms(1) s]
      call_chain [OF assms(1) s] call_linked [OF assms(1) s] by simp
next
  case (Acquire t)
  then have s: "run_resume t st = Some st1" using assms(2) by simp
  show ?thesis unfolding lock_inv_def
    using resume_bounds [OF assms(1) s] resume_settled [OF assms(1) s] resume_fifo [OF assms(1) s]
      resume_chain [OF assms(1) s] resume_linked [OF assms(1) s] by simp
next
  case (Continue t)
  then have s: "run_continue t st = Some st1" using assms(2) by simp
  show ?thesis unfolding lock_inv_def
    using continue_bounds [OF assms(1) s] continue_settled [OF assms(1) s] continue_fifo [OF assms(1) s]
      continue_chain [OF assms(1) s] continue_linked [OF assms(1) s] by simp
next
  case (Release t)
  then have s: "run_finally t st = Some st1" using assms(2) by simp
  show ?thesis unfolding lock_inv_def
    using finally_bounds [OF assms(1) s] finally_settled [OF assms(1) s] finally_fifo [OF assms(1) s]
      finally_chain [OF assms(1) s] finally_linked [OF assms(1) s] by simp
next
  case (Insert a)
  then have s: "st1 = insertAuction a st" using assms(2) by simp
  show ?thesis unfolding lock_inv_def s
    using insert_bounds [OF assms(1)] insert_settled [OF assms(1)] insert_fifo [OF assms(1)]
      insert_chain [OF assms(1)] insert_linked [OF assms(1)] by simp
next
  case (Tick n)
  then show ?thesis using assms lock_inv_tick [of st] by auto
qed

lemma lock_inv_exec: "lock_inv st \<Longrightarrow> exec es st = Some st1 \<Longrightarrow> lock_inv st1"
  by (induction es arbitrary: st) (auto split: option.splits dest: lock_inv_step)

lemma reachable_lock_inv: "exec es (InMemoryDB t0) = Some st \<Longrightarrow> lock_inv st"
  using lock_inv_exec [OF lock_inv_init] by blast

lemma head_can_resume:
  assumes "lock_inv st" "j < length (tasks st)" "phase (tasks st ! j) = Waiting"
    "\<forall>i < j. lock_key (tasks st ! i) = lock_key (tasks st ! j) \<longrightarrow> is_Done (phase (tasks st ! i))"
  shows "can_resume j st"
proof -
  note b = boundsD [OF lock_invD(1) [OF assms(1)]]
  from linkedD(1) [OF lock_invD(5) [OF assms(1)] assms(2)]
  have "promises st ! prev (tasks st ! j)"
  proof
    assume "promises st ! prev (tasks st ! j)" then show ?thesis .
  next
    assume "\<exists>i<j. prev (tasks st ! j) = next_p (tasks st ! i)"
    then obtain i where i: "i < j" "prev (tasks st ! j) = next_p (tasks st ! i)" by blast
    then have il: "i < length (tasks st)" using assms(2) by simp
    from chainD(3) [OF lock_invD(4) [OF assms(1)] assms(2) il i(2)]
    have "lock_key (tasks st ! i) = lock_key (tasks st ! j)" by blast
    then have "is_Done (phase (tasks st ! i))" using assms(4) i(1) by blast
    then show ?thesis using settledD(1) [OF lock_invD(2) [OF assms(1)] il] i(2) by simp
  qed
  then show ?thesis using assms(2,3) b(1) [OF assms(2)] by (simp add: can_resume_def)
qed

text \<open>
  C1. In every state the machine reaches from the seeded registry, whatever callbacks
  were passed to \<open>withAuctionLock\<close>: a task has executed \<open>resolveNext()\<close> once if it is
  done and never otherwise, and its \<open>next\<close> promise is fulfilled exactly when it is done;
  a task that can be resumed is resumed and then holds the promise of its callback; a
  task whose callback is suspended resumes it and keeps the lock, without releasing; a
  task whose callback has settled with an outcome \<open>r\<close>, whether a returned value (a
  validation rejection is one) or a thrown error, runs its \<open>finally\<close> block, which releases
  once and leaves the memory alone, and ends with the same \<open>r\<close> as the outcome of \<open>run\<close>;
  and a waiting task whose predecessors on its lock are all done can be resumed, so no
  lock stays taken after its holder has finished.
\<close>

theorem release_exactly_once:
  assumes "exec es (InMemoryDB t0) = Some st"
  shows "(\<forall>t < length (tasks st).
            releases (tasks st ! t) = (if is_Done (phase (tasks st ! t)) then 1 else 0)
            \<and> (promises st ! next_p (tasks st ! t) \<longleftrightarrow> is_Done (phase (tasks st ! t))))
    \<and> (\<forall>t. can_resume t st \<longrightarrow>
          (\<exists>st1. run_resume t st = Some st1
             \<and> phase (tasks st1 ! t) = Holding (fst (thunk (tasks st ! t) (heap st)))
             \<and> releases (tasks st1 ! t) = 0))
    \<and> (\<forall>t k. t < length (tasks st) \<and> phase (tasks st ! t) = Holding (Suspended k) \<longrightarrow>
          (\<exists>st1. run_continue t st = Some st1
             \<and> phase (tasks st1 ! t) = Holding (fst (k (heap st)))
             \<and> releases (tasks st1 ! t) = 0
             \<and> promises st1 = promises st))
    \<and> (\<forall>t r. t < length (tasks st) \<and> phase (tasks st ! t) = Holding (Settled r) \<longrightarrow>
          (\<exists>st1. run_finally t st = Some st1
             \<and> phase (tasks st1 ! t) = Done r
             \<and> releases (tasks st1 ! t) = 1
             \<and> promises st1 ! next_p (tasks st1 ! t)
             \<and> heap st1 = heap st))
    \<and> (\<forall>j < length (tasks st). phase (tasks st ! j) = Waiting
          \<and> (\<forall>i < j. lock_key (tasks st ! i) = lock_key (tasks st ! j)
                \<longrightarrow> is_Done (phase (tasks st ! i)))
          \<longrightarrow> can_resume j st)"
proof -
  have inv: "lock_inv st" by (rule reachable_lock_inv [OF assms])
  note s = settledD [OF lock_invD(2) [OF inv]]
  note b = boundsD [OF lock_invD(1) [OF inv]]
  have 1: "\<forall>t < length (tasks st).
            releases (tasks st ! t) = (if is_Done (phase (tasks st ! t)) then 1 else 0)
            \<and> (promises st ! next_p (tasks st ! t) \<longleftrightarrow> is_Done (phase (tasks st ! t)))"
    using s by blast
  have 2: "\<exists>st1. run_resume t st = Some st1
             \<and> phase (tasks st1 ! t) = Holding (fst (thunk (tasks st ! t) (heap st)))
             \<and> releases (tasks st1 ! t) = 0" if c: "can_resume t st" for t
  proof -
    have t: "t < length (tasks st)" "phase (tasks st ! t) = Waiting" using c by (simp_all add: can_resume_def)
    have "releases (tasks st ! t) = 0" using s(2) [OF t(1)] t(2) by simp
    then show ?thesis using c t by (simp add: run_resume_def Let_def split: prod.splits)
  qed
  have 3: "\<exists>st1. run_continue t st = Some st1
             \<and> phase (tasks st1 ! t) = Holding (fst (k (heap st)))
             \<and> releases (tasks st1 ! t) = 0
             \<and> promises st1 = promises st"
    if t: "t < length (tasks st)" "phase (tasks st ! t) = Holding (Suspended k)" for t k
  proof -
    have "releases (tasks st ! t) = 0" using s(2) [OF t(1)] t(2) by simp
    then show ?thesis using t by (simp add: run_continue_def Let_def split: prod.splits)
  qed
  have 4: "\<exists>st1. run_finally t st = Some st1
             \<and> phase (tasks st1 ! t) = Done r
             \<and> releases (tasks st1 ! t) = 1
             \<and> promises st1 ! next_p (tasks st1 ! t)
             \<and> heap st1 = heap st"
    if t: "t < length (tasks st)" "phase (tasks st ! t) = Holding (Settled r)" for t r
  proof -
    have "releases (tasks st ! t) = 0" using s(2) [OF t(1)] t(2) by simp
    then show ?thesis using t b(2) [OF t(1)] by (simp add: run_finally_def)
  qed
  have 5: "\<forall>j < length (tasks st). phase (tasks st ! j) = Waiting
          \<and> (\<forall>i < j. lock_key (tasks st ! i) = lock_key (tasks st ! j)
                \<longrightarrow> is_Done (phase (tasks st ! i)))
          \<longrightarrow> can_resume j st"
    using head_can_resume [OF inv] by blast
  show ?thesis using 1 2 3 4 5 by blast
qed

text \<open>
  C2. In every state the machine reaches from the seeded registry: a task that has
  entered its critical section has only finished tasks before it on the same lock; two
  tasks of one lock are never both inside their critical sections; while a task holds a
  lock, between its resumption and its release, no other task of that lock can run any
  part of its callback; a task can be resumed only when all earlier tasks of its lock are
  done; and a new call of \<open>withAuctionLock\<close> takes the next index, waits on the lock of
  \<open>String(id)\<close>, and leaves the earlier tasks as they are, so that indices are arrival
  order.
\<close>

theorem fifo_mutual_exclusion:
  assumes "exec es (InMemoryDB t0) = Some st"
  shows "(\<forall>j < length (tasks st). \<forall>i < j.
            lock_key (tasks st ! i) = lock_key (tasks st ! j) \<and> phase (tasks st ! j) \<noteq> Waiting
            \<longrightarrow> is_Done (phase (tasks st ! i)))
    \<and> (\<forall>i < length (tasks st). \<forall>j < length (tasks st). \<forall>c d.
            lock_key (tasks st ! i) = lock_key (tasks st ! j)
            \<and> phase (tasks st ! i) = Holding c \<and> phase (tasks st ! j) = Holding d
            \<longrightarrow> i = j)
    \<and> (\<forall>i < length (tasks st). \<forall>j < length (tasks st). \<forall>c.
            lock_key (tasks st ! i) = lock_key (tasks st ! j)
            \<and> phase (tasks st ! i) = Holding c \<and> i \<noteq> j
            \<longrightarrow> run_resume j st = None \<and> run_continue j st = None \<and> run_finally j st = None)
    \<and> (\<forall>j. can_resume j st \<longrightarrow>
          (\<forall>i < j. lock_key (tasks st ! i) = lock_key (tasks st ! j)
                \<longrightarrow> is_Done (phase (tasks st ! i))))
    \<and> (\<forall>i fn. fst (withAuctionLock i fn st) = length (tasks st)
          \<and> lock_key (tasks (snd (withAuctionLock i fn st)) ! length (tasks st)) = js_String i
          \<and> phase (tasks (snd (withAuctionLock i fn st)) ! length (tasks st)) = Waiting
          \<and> take (length (tasks st)) (tasks (snd (withAuctionLock i fn st))) = tasks st)"
proof -
  have inv: "lock_inv st" by (rule reachable_lock_inv [OF assms])
  note f = fifoD [OF lock_invD(3) [OF inv]]
  have 1: "\<forall>j < length (tasks st). \<forall>i < j.
            lock_key (tasks st ! i) = lock_key (tasks st ! j) \<and> phase (tasks st ! j) \<noteq> Waiting
            \<longrightarrow> is_Done (phase (tasks st ! i))"
    using f by blast
  have 2: "i = j" if a: "i < length (tasks st)" "j < length (tasks st)"
      "lock_key (tasks st ! i) = lock_key (tasks st ! j)"
      "phase (tasks st ! i) = Holding c" "phase (tasks st ! j) = Holding d" for i j c d
  proof (rule ccontr)
    assume "i \<noteq> j"
    then consider "i < j" | "j < i" by linarith
    then show False
    proof cases
      case 1
      from f [OF a(2) 1 a(3)] a(4,5) show False by simp
    next
      case 2
      from f [OF a(1) 2 a(3) [symmetric]] a(4,5) show False by simp
    qed
  qed
  have 3: "is_Done (phase (tasks st ! i))"
    if "can_resume j st" "i < j" "lock_key (tasks st ! i) = lock_key (tasks st ! j)" for i j
    using chainD(1) [OF lock_invD(4) [OF inv], of j i] that by (simp add: can_resume_def)
  have 4: "run_resume j st = None \<and> run_continue j st = None \<and> run_finally j st = None"
    if a: "i < length (tasks st)" "j < length (tasks st)"
      "lock_key (tasks st ! i) = lock_key (tasks st ! j)"
      "phase (tasks st ! i) = Holding c" "i \<noteq> j" for i j c
  proof (cases "phase (tasks st ! j)")
    case Waiting
    have "\<not> can_resume j st"
    proof
      assume cr: "can_resume j st"
      from a(5) consider "i < j" | "j < i" by linarith
      then show False
      proof cases
        case 1
        from 3 [OF cr 1 a(3)] a(4) show False by simp
      next
        case 2
        from f [OF a(1) 2 a(3) [symmetric]] a(4) Waiting show False by simp
      qed
    qed
    then show ?thesis using Waiting by (simp add: run_resume_def run_continue_def run_finally_def)
  next
    case (Holding d)
    from 2 [OF a(1,2,3,4) Holding] a(5) show ?thesis by simp
  next
    case (Done r)
    then show ?thesis
      by (simp add: run_resume_def can_resume_def run_continue_def run_finally_def)
  qed
  have 5: "\<forall>i fn. fst (withAuctionLock i fn st) = length (tasks st)
          \<and> lock_key (tasks (snd (withAuctionLock i fn st)) ! length (tasks st)) = js_String i
          \<and> phase (tasks (snd (withAuctionLock i fn st)) ! length (tasks st)) = Waiting
          \<and> take (length (tasks st)) (tasks (snd (withAuctionLock i fn st))) = tasks st"
    by (simp add: withAuctionLock_fields)
  have q2: "\<forall>i < length (tasks st). \<forall>j < length (tasks st). \<forall>c d.
            lock_key (tasks st ! i) = lock_key (tasks st ! j)
            \<and> phase (tasks st ! i) = Holding c \<and> phase (tasks st ! j) = Holding d
            \<longrightarrow> i = j"
    using 2 by blast
  have q3: "\<forall>j. can_resume j st \<longrightarrow>
          (\<forall>i < j. lock_key (tasks st ! i) = lock_key (tasks st ! j)
                \<longrightarrow> is_Done (phase (tasks st ! i)))"
    using 3 by blast
  have q4: "\<forall>i < length (tasks st). \<forall>j < length (tasks st). \<forall>c.
            lock_key (tasks st ! i) = lock_key (tasks st ! j)
            \<and> phase (tasks st ! i) = Holding c \<and> i \<noteq> j
            \<longrightarrow> run_resume j st = None \<and> run_continue j st = None \<and> run_finally j st = None"
    using 4 by blast
  show ?thesis using 1 q2 q4 q3 5 by (intro conjI)
qed

text \<open>
  A callback that throws while a second call waits on the same lock: the error is the
  outcome, the release happens once, and the second task can then be resumed.
\<close>

theorem release_exactly_once_witness:
  "\<exists>st st1. exec [Call (IdStr ''1'') (\<lambda>a h. (Settled (Inl (Thrown ''boom'')), h)),
                  Call (IdStr ''1'') (\<lambda>a h. (Settled (Inr ()), h)), Acquire 0] (InMemoryDB 0) = Some st
     \<and> phase (tasks st ! 0) = Holding (Settled (Inl (Thrown ''boom'')))
     \<and> releases (tasks st ! 0) = 0
     \<and> \<not> can_resume 1 st
     \<and> run_finally 0 st = Some st1
     \<and> phase (tasks st1 ! 0) = Done (Inl (Thrown ''boom''))
     \<and> releases (tasks st1 ! 0) = 1
     \<and> can_resume 1 st1"
proof -
  let ?es = "[Call (IdStr ''1'') (\<lambda>a h. (Settled (Inl (Thrown ''boom'')), h)),
              Call (IdStr ''1'') (\<lambda>a h. (Settled (Inr ()), h)), Acquire 0] :: unit event list"
  obtain st where a: "exec ?es (InMemoryDB 0) = Some st"
    and b: "phase (tasks st ! 0) = Holding (Settled (Inl (Thrown ''boom'')))" and c: "0 < length (tasks st)"
    and d: "\<not> can_resume 1 st" and e: "releases (tasks st ! 0) = 0"
    by (simp add: model_defs)
  from release_exactly_once [OF a] b c obtain st1 where
    f: "run_finally 0 st = Some st1" "phase (tasks st1 ! 0) = Done (Inl (Thrown ''boom''))"
     "releases (tasks st1 ! 0) = 1"
    by blast
  have "can_resume 1 st1" using a f(1) by (auto simp: model_defs)
  with a b d e f show ?thesis by blast
qed

text \<open>
  Two calls for auction 1, one by the string and one by the number, and one call for
  auction 2. The callback of the first call suspends once. While it holds the lock of
  auction 1 the second call cannot run, and the call for auction 2 runs meanwhile.
\<close>

theorem fifo_mutual_exclusion_witness:
  "\<exists>st. exec [Call (IdStr ''1'') (\<lambda>a h. (Suspended (\<lambda>h. (Settled (Inr ()), h)), h)),
               Call (IdNum 1) (\<lambda>a h. (Settled (Inr ()), h)),
               Call (IdStr ''2'') (\<lambda>a h. (Settled (Inr ()), h)),
               Acquire 0, Acquire 2, Continue 0] (InMemoryDB 0) = Some st
     \<and> map lock_key (tasks st) = [''1'', ''1'', ''2'']
     \<and> phase (tasks st ! 0) = Holding (Settled (Inr ()))
     \<and> phase (tasks st ! 1) = Waiting
     \<and> phase (tasks st ! 2) = Holding (Settled (Inr ()))
     \<and> run_resume 1 st = None"
proof -
  let ?es = "[Call (IdStr ''1'') (\<lambda>a h. (Suspended (\<lambda>h. (Settled (Inr ()), h)), h)),
               Call (IdNum 1) (\<lambda>a h. (Settled (Inr ()), h)),
               Call (IdStr ''2'') (\<lambda>a h. (Settled (Inr ()), h)),
               Acquire 0, Acquire 2, Continue 0] :: unit event list"
  obtain st where a: "exec ?es (InMemoryDB 0) = Some st"
    and b: "map lock_key (tasks st) = [''1'', ''1'', ''2'']"
    and c: "phase (tasks st ! 0) = Holding (Settled (Inr ()))" "phase (tasks st ! 1) = Waiting"
      "phase (tasks st ! 2) = Holding (Settled (Inr ()))"
    by (simp add: model_defs decimal.simps)
  have l: "length (tasks st) = 3" using arg_cong [OF b, of length] by simp
  have k: "lock_key (tasks st ! 0) = lock_key (tasks st ! 1)"
    using arg_cong [OF b, of "\<lambda>xs. xs ! 0"] arg_cong [OF b, of "\<lambda>xs. xs ! 1"] l by simp
  from fifo_mutual_exclusion [OF a] have
    "\<forall>i < length (tasks st). \<forall>j < length (tasks st). \<forall>c.
            lock_key (tasks st ! i) = lock_key (tasks st ! j)
            \<and> phase (tasks st ! i) = Holding c \<and> i \<noteq> j
            \<longrightarrow> run_resume j st = None \<and> run_continue j st = None \<and> run_finally j st = None"
    by blast
  then have "0 < length (tasks st) \<longrightarrow> 1 < length (tasks st) \<longrightarrow>
      lock_key (tasks st ! 0) = lock_key (tasks st ! 1)
            \<and> phase (tasks st ! 0) = Holding (Settled (Inr ())) \<and> (0::nat) \<noteq> 1
            \<longrightarrow> run_resume 1 st = None \<and> run_continue 1 st = None \<and> run_finally 1 st = None"
    by blast
  then have d: "run_resume 1 st = None" using k c(1) l by simp
  show ?thesis
  proof (intro exI conjI)
    show "exec ?es (InMemoryDB 0) = Some st" by (rule a)
    show "map lock_key (tasks st) = [''1'', ''1'', ''2'']" by (rule b)
    show "phase (tasks st ! 0) = Holding (Settled (Inr ()))" by (rule c(1))
    show "phase (tasks st ! 1) = Waiting" by (rule c(2))
    show "phase (tasks st ! 2) = Holding (Settled (Inr ()))" by (rule c(3))
    show "run_resume 1 st = None" by (rule d)
  qed
qed

section \<open>Callbacks run inside the lock of their auction\<close>

text \<open>
  When a task can be resumed, the earlier tasks of its lock are done and have released
  once, and the later ones still wait. While a task holds a lock, no other task of that
  lock can be resumed, continued or released.
\<close>

lemma granted_alone:
  assumes "lock_inv st" "can_resume t st" "j < length (tasks st)" "j \<noteq> t"
    "lock_key (tasks st ! j) = lock_key (tasks st ! t)"
  shows "if j < t then is_Done (phase (tasks st ! j)) \<and> releases (tasks st ! j) = 1
         else phase (tasks st ! j) = Waiting"
proof (cases "j < t")
  case True
  have t: "t < length (tasks st)" "promises st ! prev (tasks st ! t)"
    using assms(2) by (simp_all add: can_resume_def)
  from chainD(1) [OF lock_invD(4) [OF assms(1)] t True assms(5)]
  have d: "is_Done (phase (tasks st ! j))" .
  with settledD(2) [OF lock_invD(2) [OF assms(1)] assms(3)] True show ?thesis by simp
next
  case False
  then have tj: "t < j" using assms(4) by simp
  have "phase (tasks st ! j) = Waiting"
  proof (rule ccontr)
    assume "phase (tasks st ! j) \<noteq> Waiting"
    from fifoD [OF lock_invD(3) [OF assms(1)] assms(3) tj assms(5) [symmetric] this]
    have "is_Done (phase (tasks st ! t))" .
    then show False using assms(2) by (simp add: can_resume_def)
  qed
  with False show ?thesis by simp
qed

lemma holder_alone:
  assumes "lock_inv st" "t < length (tasks st)" "phase (tasks st ! t) = Holding c"
    "j < length (tasks st)" "j \<noteq> t" "lock_key (tasks st ! j) = lock_key (tasks st ! t)"
  shows "run_resume j st = None \<and> run_continue j st = None \<and> run_finally j st = None"
proof (cases "phase (tasks st ! j)")
  case Waiting
  have "\<not> can_resume j st"
  proof
    assume cr: "can_resume j st"
    from granted_alone [OF assms(1) cr assms(2) assms(5) [symmetric] assms(6) [symmetric]] assms(3)
    show False by (simp split: if_splits)
  qed
  then show ?thesis using Waiting by (simp add: run_resume_def run_continue_def run_finally_def)
next
  case (Holding d)
  from assms(5) consider "j < t" | "t < j" by linarith
  then have False
  proof cases
    case 1
    from fifoD [OF lock_invD(3) [OF assms(1)] assms(2) 1 assms(6)] assms(3) Holding
    show False by simp
  next
    case 2
    from fifoD [OF lock_invD(3) [OF assms(1)] assms(4) 2 assms(6) [symmetric]] assms(3) Holding
    show False by simp
  qed
  then show ?thesis ..
next
  case (Done r)
  then show ?thesis
    by (simp add: run_resume_def can_resume_def run_continue_def run_finally_def)
qed

lemma resume_in_lock:
  assumes "exec es0 (InMemoryDB t0) = Some st0"
    and "withAuctionLock i fn st0 = (t, st1)" and "exec es st1 = Some st" and "can_resume t st"
  shows "\<exists>st2. run_resume t st = Some st2
    \<and> phase (tasks st2 ! t) = Holding (fst (fn (findAuctionById (heap st) i) (heap st)))
    \<and> heap st2 = snd (fn (findAuctionById (heap st) i) (heap st))
    \<and> lock_key (tasks st ! t) = js_String i
    \<and> (\<forall>j < length (tasks st). j \<noteq> t \<and> lock_key (tasks st ! j) = js_String i \<longrightarrow>
          (if j < t then is_Done (phase (tasks st ! j)) \<and> releases (tasks st ! j) = 1
           else phase (tasks st ! j) = Waiting))
    \<and> (\<forall>es1 st3 c. exec es1 st2 = Some st3 \<and> phase (tasks st3 ! t) = Holding c \<longrightarrow>
          (\<forall>j < length (tasks st3). j \<noteq> t \<and> lock_key (tasks st3 ! j) = js_String i \<longrightarrow>
             run_resume j st3 = None \<and> run_continue j st3 = None \<and> run_finally j st3 = None))"
proof -
  have st1: "st1 = snd (withAuctionLock i fn st0)" using assms(2) by simp
  have "step (Call i fn) st0 = Some st1" by (simp add: st1)
  from lock_inv_step [OF reachable_lock_inv [OF assms(1)] this]
  have inv1: "lock_inv st1" .
  have inv: "lock_inv st" by (rule lock_inv_exec [OF inv1 assms(3)])
  note c = call_then_exec [OF assms(2,3)]
  from resume_after_call [OF assms(2,3,4)] obtain st2 where
    st2: "run_resume t st = Some st2"
      "phase (tasks st2 ! t) = Holding (fst (fn (findAuctionById (heap st) i) (heap st)))"
      "heap st2 = snd (fn (findAuctionById (heap st) i) (heap st))"
    by blast
  have "step (Acquire t) st = Some st2" by (simp add: st2(1))
  from lock_inv_step [OF inv this] have inv2: "lock_inv st2" .
  have l2: "t < length (tasks st2)" "lock_key (tasks st2 ! t) = js_String i"
    using resume_view(1,7) [OF st2(1)] c(2,4) by simp_all
  have a: "if j < t then is_Done (phase (tasks st ! j)) \<and> releases (tasks st ! j) = 1
           else phase (tasks st ! j) = Waiting"
    if "j < length (tasks st)" "j \<noteq> t" "lock_key (tasks st ! j) = js_String i" for j
    using granted_alone [OF inv assms(4) that(1,2)] that(3) c(4) by simp
  have b: "run_resume j st3 = None \<and> run_continue j st3 = None \<and> run_finally j st3 = None"
    if e: "exec es1 st2 = Some st3" and h: "phase (tasks st3 ! t) = Holding c"
      and j: "j < length (tasks st3)" "j \<noteq> t" "lock_key (tasks st3 ! j) = js_String i"
    for es1 st3 c j
  proof -
    have inv3: "lock_inv st3" by (rule lock_inv_exec [OF inv2 e])
    have x: "extends st2 st3" by (rule exec_extends [OF e])
    have l3: "t < length (tasks st3)" "lock_key (tasks st3 ! t) = js_String i"
      using x l2 by (auto simp: extends_def)
    show ?thesis using holder_alone [OF inv3 l3(1) h j(1,2)] j(3) l3(2) by simp
  qed
  have a': "\<forall>j < length (tasks st). j \<noteq> t \<and> lock_key (tasks st ! j) = js_String i \<longrightarrow>
          (if j < t then is_Done (phase (tasks st ! j)) \<and> releases (tasks st ! j) = 1
           else phase (tasks st ! j) = Waiting)"
    using a by blast
  have b': "\<forall>es1 st3 c. exec es1 st2 = Some st3 \<and> phase (tasks st3 ! t) = Holding c \<longrightarrow>
          (\<forall>j < length (tasks st3). j \<noteq> t \<and> lock_key (tasks st3 ! j) = js_String i \<longrightarrow>
             run_resume j st3 = None \<and> run_continue j st3 = None \<and> run_finally j st3 = None)"
    using b by blast
  show ?thesis using st2 c(4) a' b' by (intro exI [of _ st2] conjI)
qed

text \<open>
  C7. In a run of the machine from the seeded registry, a call \<open>withAuctionLock(id, fn)\<close>
  queues a task on the lock of \<open>String(id)\<close>. Whatever happens in between (\<open>es\<close>), once
  the task can be resumed in a state \<open>st\<close>, that is once the mutex is granted to it, every
  earlier task of that lock is done and has released once, every later task of that lock
  still waits, and the resumption applies the callback to \<open>findAuctionById(id)\<close> evaluated
  in \<open>st\<close>, the state at the moment the lock is granted and so the one the previous holder
  has left, not in the state \<open>st0\<close> in which the call was made. From then on, for as long
  as the task holds the lock (\<open>es1\<close>), no other task of that lock can run any of its code.
\<close>

theorem fresh_lookup:
  assumes "exec es0 (InMemoryDB t0) = Some st0"
    and "withAuctionLock i fn st0 = (t, st1)" and "exec es st1 = Some st" and "can_resume t st"
  shows "\<exists>st2. run_resume t st = Some st2
    \<and> phase (tasks st2 ! t) = Holding (fst (fn (findAuctionById (heap st) i) (heap st)))
    \<and> heap st2 = snd (fn (findAuctionById (heap st) i) (heap st))
    \<and> lock_key (tasks st ! t) = js_String i
    \<and> (\<forall>j < length (tasks st). j \<noteq> t \<and> lock_key (tasks st ! j) = js_String i \<longrightarrow>
          (if j < t then is_Done (phase (tasks st ! j)) \<and> releases (tasks st ! j) = 1
           else phase (tasks st ! j) = Waiting))
    \<and> (\<forall>es1 st3 c. exec es1 st2 = Some st3 \<and> phase (tasks st3 ! t) = Holding c \<longrightarrow>
          (\<forall>j < length (tasks st3). j \<noteq> t \<and> lock_key (tasks st3 ! j) = js_String i \<longrightarrow>
             run_resume j st3 = None \<and> run_continue j st3 = None \<and> run_finally j st3 = None))"
  using assms by (rule resume_in_lock)

text \<open>
  Three bids are queued on auction 1 while its current bid is 100. The second, for 110,
  is granted the lock once the first, for 120, is done; it finds the current bid at 120
  and is rejected; while it holds the lock the third cannot be resumed.
\<close>

theorem fresh_lookup_witness:
  "\<exists>st0 st1 st st2.
     exec [Call (IdStr ''1'') (bid_callback (IdStr ''1'') (Fin 120) (JStr ''charlie''))] (InMemoryDB 0) = Some st0
     \<and> map_option currentBid (findAuctionById (heap st0) (IdStr ''1'')) = Some (Fin 100)
     \<and> withAuctionLock (IdStr ''1'') (bid_callback (IdStr ''1'') (Fin 110) (JStr ''dave'')) st0 = (1, st1)
     \<and> exec [Call (IdStr ''1'') (bid_callback (IdStr ''1'') (Fin 130) (JStr ''erin'')),
              Acquire 0, Release 0] st1 = Some st
     \<and> map_option currentBid (findAuctionById (heap st) (IdStr ''1'')) = Some (Fin 120)
     \<and> can_resume 1 st
     \<and> map lock_key (tasks st) = [''1'', ''1'', ''1'']
     \<and> is_Done (phase (tasks st ! 0)) \<and> releases (tasks st ! 0) = 1
     \<and> phase (tasks st ! 2) = Waiting
     \<and> run_resume 1 st = Some st2
     \<and> phase (tasks st2 ! 1) = Holding (Settled (Inr (Some \<lparr>status_code = 409,
            json = ErrorBody ''Bid must be higher than current bid''\<rparr>)))
     \<and> heap st2 = heap st
     \<and> run_resume 2 st2 = None"
proof -
  let ?fn0 = "bid_callback (IdStr ''1'') (Fin 120) (JStr ''charlie'')"
  let ?fn1 = "bid_callback (IdStr ''1'') (Fin 110) (JStr ''dave'')"
  let ?fn2 = "bid_callback (IdStr ''1'') (Fin 130) (JStr ''erin'')"
  obtain st0 where a: "exec [Call (IdStr ''1'') ?fn0] (InMemoryDB 0) = Some st0"
    and e: "map_option currentBid (findAuctionById (heap st0) (IdStr ''1'')) = Some (Fin 100)"
    by (simp add: model_defs)
  obtain st1 where b: "withAuctionLock (IdStr ''1'') ?fn1 st0 = (1, st1)"
    using a by (auto simp: model_defs)
  obtain st where c: "exec [Call (IdStr ''1'') ?fn2, Acquire 0, Release 0] st1 = Some st"
    and d: "can_resume 1 st"
    and f: "map_option currentBid (findAuctionById (heap st) (IdStr ''1'')) = Some (Fin 120)"
    and g: "fst (?fn1 (findAuctionById (heap st) (IdStr ''1'')) (heap st))
        = Settled (Inr (Some \<lparr>status_code = 409, json = ErrorBody ''Bid must be higher than current bid''\<rparr>))"
    and h: "snd (?fn1 (findAuctionById (heap st) (IdStr ''1'')) (heap st)) = heap st"
    and k: "map lock_key (tasks st) = [''1'', ''1'', ''1'']"
    using a b by (auto simp: model_defs bid_callback_def strict_eq_def)
  have l: "length (tasks st) = 3" using arg_cong [OF k, of length] by simp
  have k0: "lock_key (tasks st ! 0) = ''1''" and k2: "lock_key (tasks st ! 2) = ''1''"
    using arg_cong [OF k, of "\<lambda>xs. xs ! 0"] arg_cong [OF k, of "\<lambda>xs. xs ! 2"] l by simp_all
  from fresh_lookup [OF a b c d] obtain st2 where
    r: "run_resume 1 st = Some st2"
    "phase (tasks st2 ! 1) = Holding (fst (?fn1 (findAuctionById (heap st) (IdStr ''1'')) (heap st)))"
    "heap st2 = snd (?fn1 (findAuctionById (heap st) (IdStr ''1'')) (heap st))"
    and q: "\<forall>j < length (tasks st). j \<noteq> 1 \<and> lock_key (tasks st ! j) = js_String (IdStr ''1'') \<longrightarrow>
          (if j < 1 then is_Done (phase (tasks st ! j)) \<and> releases (tasks st ! j) = 1
           else phase (tasks st ! j) = Waiting)"
    and x: "\<forall>es1 st3 c. exec es1 st2 = Some st3 \<and> phase (tasks st3 ! 1) = Holding c \<longrightarrow>
          (\<forall>j < length (tasks st3). j \<noteq> 1 \<and> lock_key (tasks st3 ! j) = js_String (IdStr ''1'') \<longrightarrow>
             run_resume j st3 = None \<and> run_continue j st3 = None \<and> run_finally j st3 = None)"
    by blast
  from q have "0 < length (tasks st) \<longrightarrow> (0::nat) \<noteq> 1 \<and> lock_key (tasks st ! 0) = js_String (IdStr ''1'') \<longrightarrow>
          (if (0::nat) < 1 then is_Done (phase (tasks st ! 0)) \<and> releases (tasks st ! 0) = 1
           else phase (tasks st ! 0) = Waiting)" by blast
  then have q0: "is_Done (phase (tasks st ! 0))" "releases (tasks st ! 0) = 1" using l k0 by simp_all
  from q have "2 < length (tasks st) \<longrightarrow> (2::nat) \<noteq> 1 \<and> lock_key (tasks st ! 2) = js_String (IdStr ''1'') \<longrightarrow>
          (if (2::nat) < 1 then is_Done (phase (tasks st ! 2)) \<and> releases (tasks st ! 2) = 1
           else phase (tasks st ! 2) = Waiting)" by blast
  then have q2: "phase (tasks st ! 2) = Waiting" using l k2 by simp
  have l2: "length (tasks st2) = 3" "lock_key (tasks st2 ! 2) = ''1''"
    using resume_view(1) [OF r(1)] resume_view(7) [OF r(1), of 2] l k2 by simp_all
  have "exec [] st2 = Some st2" by simp
  with x r(2) have "\<forall>j < length (tasks st2). j \<noteq> 1 \<and> lock_key (tasks st2 ! j) = js_String (IdStr ''1'') \<longrightarrow>
             run_resume j st2 = None \<and> run_continue j st2 = None \<and> run_finally j st2 = None"
    by blast
  then have "2 < length (tasks st2) \<longrightarrow> (2::nat) \<noteq> 1 \<and> lock_key (tasks st2 ! 2) = js_String (IdStr ''1'') \<longrightarrow>
             run_resume 2 st2 = None \<and> run_continue 2 st2 = None \<and> run_finally 2 st2 = None"
    by blast
  then have x2: "run_resume 2 st2 = None" using l2 by simp
  show ?thesis
  proof (intro exI conjI)
    show "exec [Call (IdStr ''1'') ?fn0] (InMemoryDB 0) = Some st0" by (rule a)
    show "map_option currentBid (findAuctionById (heap st0) (IdStr ''1'')) = Some (Fin 100)" by (rule e)
    show "withAuctionLock (IdStr ''1'') ?fn1 st0 = (1, st1)" by (rule b)
    show "exec [Call (IdStr ''1'') ?fn2, Acquire 0, Release 0] st1 = Some st" by (rule c)
    show "map_option currentBid (findAuctionById (heap st) (IdStr ''1'')) = Some (Fin 120)" by (rule f)
    show "can_resume 1 st" by (rule d)
    show "map lock_key (tasks st) = [''1'', ''1'', ''1'']" by (rule k)
    show "is_Done (phase (tasks st ! 0))" by (rule q0(1))
    show "releases (tasks st ! 0) = 1" by (rule q0(2))
    show "phase (tasks st ! 2) = Waiting" by (rule q2)
    show "run_resume 1 st = Some st2" by (rule r(1))
    show "phase (tasks st2 ! 1) = Holding (Settled (Inr (Some \<lparr>status_code = 409,
            json = ErrorBody ''Bid must be higher than current bid''\<rparr>)))"
      using r(2) unfolding g .
    show "heap st2 = heap st" using r(3) unfolding h .
    show "run_resume 2 st2 = None" by (rule x2)
  qed
qed

text \<open>
  C3. The amount check runs first, before the lock is taken (the fast reject the
  specification permits): an amount that is not a finite positive number is answered 400
  at once and nothing is queued or changed. Any other bid is queued, without reading or
  writing the registry, on the lock of its auction. When the lock is granted to it, in
  whatever state \<open>st\<close> the machine is by then, every earlier task of that lock is done,
  every later one still waits, and the status of the response is that of the first
  failing check of the list, taken on the aggregate looked up in \<open>st\<close>: absent 404, not
  active 409, own auction 403, amount not above the current bid 409, else 201. The
  checks and the update are one step of the machine, after which no other task of that
  lock can run until the bid releases it.
\<close>

theorem bid_validation_order:
  assumes "exec es0 (InMemoryDB t0) = Some st0"
    and "post_bid param amt bidder st0 = (rep, st1)"
  shows "if finite_positive amt
         then (\<exists>n. amt = JNum n \<and> rep = Pending (length (tasks st0)) bid_catch
                \<and> heap st1 = heap st0
                \<and> (\<forall>es st. exec es st1 = Some st \<and> can_resume (length (tasks st0)) st \<longrightarrow>
                     lock_key (tasks st ! length (tasks st0)) = param
                     \<and> (\<forall>j < length (tasks st).
                          j \<noteq> length (tasks st0) \<and> lock_key (tasks st ! j) = param \<longrightarrow>
                          (if j < length (tasks st0)
                           then is_Done (phase (tasks st ! j)) \<and> releases (tasks st ! j) = 1
                           else phase (tasks st ! j) = Waiting))
                     \<and> (\<exists>st2 r resp. run_resume (length (tasks st0)) st = Some st2
                        \<and> phase (tasks st2 ! length (tasks st0)) = Holding (Settled r)
                        \<and> bid_catch r = Some resp
                        \<and> status_code resp = checks_in_order n bidder (findAuctionById (heap st) (IdStr param))
                        \<and> (\<forall>j < length (tasks st2).
                             j \<noteq> length (tasks st0) \<and> lock_key (tasks st2 ! j) = param \<longrightarrow>
                             run_resume j st2 = None \<and> run_continue j st2 = None
                             \<and> run_finally j st2 = None))))
         else rep = Replied \<lparr>status_code = 400, json = ErrorBody ''amount must be a positive number''\<rparr>
              \<and> st1 = st0"
proof (cases "finite_positive amt")
  case False
  then show ?thesis using assms(2)
    by (cases amt; cases "case amt of JNum n \<Rightarrow> n | _ \<Rightarrow> NaN") (auto simp: post_bid_def)
next
  case True
  then obtain n where n: "amt = JNum n" "Number_isFinite n" "num_lt (Fin 0) n"
    by (cases amt) auto
  then have le: "\<not> num_le n (Fin 0)" by (cases n) auto
  let ?i = "IdStr param"
  let ?t = "length (tasks st0)"
  have call: "withAuctionLock ?i (bid_callback ?i n bidder) st0 = (?t, st1)"
    and rep: "rep = Pending ?t bid_catch"
    using assms(2) n le withAuctionLock_fields(1)[of ?i "bid_callback ?i n bidder" st0]
    by (auto simp: post_bid_def Let_def split: prod.splits)
  have hp: "heap st1 = heap st0"
    using withAuctionLock_fields(2) [of ?i "bid_callback ?i n bidder" st0] call by simp
  have main: "lock_key (tasks st ! ?t) = param
      \<and> (\<forall>j < length (tasks st). j \<noteq> ?t \<and> lock_key (tasks st ! j) = param \<longrightarrow>
            (if j < ?t then is_Done (phase (tasks st ! j)) \<and> releases (tasks st ! j) = 1
             else phase (tasks st ! j) = Waiting))
      \<and> (\<exists>st2 r resp. run_resume ?t st = Some st2 \<and> phase (tasks st2 ! ?t) = Holding (Settled r)
          \<and> bid_catch r = Some resp
          \<and> status_code resp = checks_in_order n bidder (findAuctionById (heap st) ?i)
          \<and> (\<forall>j < length (tasks st2). j \<noteq> ?t \<and> lock_key (tasks st2 ! j) = param \<longrightarrow>
                run_resume j st2 = None \<and> run_continue j st2 = None \<and> run_finally j st2 = None))"
    if "exec es st1 = Some st" "can_resume ?t st" for es st
  proof -
    from resume_in_lock [OF assms(1) call that] obtain st2 where
      st2: "run_resume ?t st = Some st2"
        "phase (tasks st2 ! ?t) = Holding (fst (bid_callback ?i n bidder (findAuctionById (heap st) ?i) (heap st)))"
      and k: "lock_key (tasks st ! ?t) = js_String ?i"
      and q: "\<forall>j < length (tasks st). j \<noteq> ?t \<and> lock_key (tasks st ! j) = js_String ?i \<longrightarrow>
          (if j < ?t then is_Done (phase (tasks st ! j)) \<and> releases (tasks st ! j) = 1
           else phase (tasks st ! j) = Waiting)"
      and x: "\<forall>es1 st3 c. exec es1 st2 = Some st3 \<and> phase (tasks st3 ! ?t) = Holding c \<longrightarrow>
          (\<forall>j < length (tasks st3). j \<noteq> ?t \<and> lock_key (tasks st3 ! j) = js_String ?i \<longrightarrow>
             run_resume j st3 = None \<and> run_continue j st3 = None \<and> run_finally j st3 = None)"
      by blast
    from bid_callback_code [of ?i n bidder "findAuctionById (heap st) ?i" "heap st"] True n
    obtain resp where resp: "fst (bid_callback ?i n bidder (findAuctionById (heap st) ?i) (heap st)) = Settled (Inr (Some resp))"
      "status_code resp = checks_in_order n bidder (findAuctionById (heap st) ?i)" by auto
    have p: "phase (tasks st2 ! ?t) = Holding (Settled (Inr (Some resp)))"
      using st2(2) resp(1) by simp
    have "exec [] st2 = Some st2" by simp
    with x p have y: "\<forall>j < length (tasks st2). j \<noteq> ?t \<and> lock_key (tasks st2 ! j) = js_String ?i \<longrightarrow>
             run_resume j st2 = None \<and> run_continue j st2 = None \<and> run_finally j st2 = None"
      by blast
    have 1: "lock_key (tasks st ! ?t) = param" using k by simp
    have 2: "\<forall>j < length (tasks st). j \<noteq> ?t \<and> lock_key (tasks st ! j) = param \<longrightarrow>
            (if j < ?t then is_Done (phase (tasks st ! j)) \<and> releases (tasks st ! j) = 1
             else phase (tasks st ! j) = Waiting)"
      using q by simp
    have 3: "\<forall>j < length (tasks st2). j \<noteq> ?t \<and> lock_key (tasks st2 ! j) = param \<longrightarrow>
                run_resume j st2 = None \<and> run_continue j st2 = None \<and> run_finally j st2 = None"
      using y by simp
    have 4: "bid_catch (Inr (Some resp)) = Some resp" by (simp add: bid_catch_def)
    have "\<exists>st2 r resp. run_resume ?t st = Some st2 \<and> phase (tasks st2 ! ?t) = Holding (Settled r)
          \<and> bid_catch r = Some resp
          \<and> status_code resp = checks_in_order n bidder (findAuctionById (heap st) ?i)
          \<and> (\<forall>j < length (tasks st2). j \<noteq> ?t \<and> lock_key (tasks st2 ! j) = param \<longrightarrow>
                run_resume j st2 = None \<and> run_continue j st2 = None \<and> run_finally j st2 = None)"
      using st2(1) p 4 resp(2) 3 by blast
    with 1 2 show ?thesis by (intro conjI)
  qed
  have "\<exists>n. amt = JNum n \<and> rep = Pending ?t bid_catch \<and> heap st1 = heap st0
      \<and> (\<forall>es st. exec es st1 = Some st \<and> can_resume ?t st \<longrightarrow>
           lock_key (tasks st ! ?t) = param
      \<and> (\<forall>j < length (tasks st). j \<noteq> ?t \<and> lock_key (tasks st ! j) = param \<longrightarrow>
            (if j < ?t then is_Done (phase (tasks st ! j)) \<and> releases (tasks st ! j) = 1
             else phase (tasks st ! j) = Waiting))
      \<and> (\<exists>st2 r resp. run_resume ?t st = Some st2 \<and> phase (tasks st2 ! ?t) = Holding (Settled r)
          \<and> bid_catch r = Some resp
          \<and> status_code resp = checks_in_order n bidder (findAuctionById (heap st) ?i)
          \<and> (\<forall>j < length (tasks st2). j \<noteq> ?t \<and> lock_key (tasks st2 ! j) = param \<longrightarrow>
                run_resume j st2 = None \<and> run_continue j st2 = None \<and> run_finally j st2 = None)))"
    using n(1) rep hp main by blast
  with True show ?thesis by simp
qed

text \<open>
  A task whose callback suspends once is queued on the lock of auction 1 when a bid of 50
  arrives: the bid cannot be resumed until that task is done, and is then answered 409
  against the aggregate found at that moment. A bid of -5 is answered 400 at once.
\<close>

theorem bid_validation_order_witness:
  "\<exists>st0 st1 st.
     exec [Call (IdStr ''1'') (\<lambda>a h. (Suspended (\<lambda>h. (Settled (Inr None), h)), h))] (InMemoryDB 0) = Some st0
     \<and> post_bid ''1'' (JNum (Fin 50)) (JStr ''charlie'') st0 = (Pending 1 bid_catch, st1)
     \<and> \<not> can_resume 1 st1
     \<and> exec [Acquire 0, Continue 0, Release 0] st1 = Some st
     \<and> can_resume 1 st
     \<and> map lock_key (tasks st) = [''1'', ''1'']
     \<and> is_Done (phase (tasks st ! 0))
     \<and> (\<exists>st2 r resp. run_resume 1 st = Some st2 \<and> phase (tasks st2 ! 1) = Holding (Settled r)
           \<and> bid_catch r = Some resp \<and> status_code resp = 409)
     \<and> post_bid ''1'' (JNum (Fin (-5))) (JStr ''charlie'') st0
       = (Replied \<lparr>status_code = 400, json = ErrorBody ''amount must be a positive number''\<rparr>, st0)"
proof -
  let ?fn0 = "(\<lambda>a h. (Suspended (\<lambda>h. (Settled (Inr None), h)), h))
      :: auction option \<Rightarrow> heap \<Rightarrow> response option async \<times> heap"
  obtain st0 where z: "exec [Call (IdStr ''1'') ?fn0] (InMemoryDB 0) = Some st0"
    and l0: "length (tasks st0) = 1"
    by (simp add: model_defs)
  obtain st1 where a: "post_bid ''1'' (JNum (Fin 50)) (JStr ''charlie'') st0 = (Pending 1 bid_catch, st1)"
    and b: "\<not> can_resume 1 st1"
    using z by (auto simp: post_bid_def model_defs)
  obtain st where c: "exec [Acquire 0, Continue 0, Release 0] st1 = Some st"
    and d: "can_resume 1 st"
    and k: "map lock_key (tasks st) = [''1'', ''1'']"
    and e: "checks_in_order (Fin 50) (JStr ''charlie'') (findAuctionById (heap st) (IdStr ''1'')) = 409"
    using z a by (auto simp: post_bid_def model_defs checks_in_order_def strict_eq_def)
  have l: "length (tasks st) = 2" using arg_cong [OF k, of length] by simp
  have k0: "lock_key (tasks st ! 0) = ''1''"
    using arg_cong [OF k, of "\<lambda>xs. xs ! 0"] l by simp
  have fp: "finite_positive (JNum (Fin 50))" by simp
  have d0: "can_resume (length (tasks st0)) st" using d l0 by simp
  have "\<exists>n. JNum (Fin 50) = JNum n \<and> Pending 1 bid_catch = Pending (length (tasks st0)) bid_catch
                \<and> heap st1 = heap st0
                \<and> (\<forall>es st. exec es st1 = Some st \<and> can_resume (length (tasks st0)) st \<longrightarrow>
                     lock_key (tasks st ! length (tasks st0)) = ''1''
                     \<and> (\<forall>j < length (tasks st).
                          j \<noteq> length (tasks st0) \<and> lock_key (tasks st ! j) = ''1'' \<longrightarrow>
                          (if j < length (tasks st0)
                           then is_Done (phase (tasks st ! j)) \<and> releases (tasks st ! j) = 1
                           else phase (tasks st ! j) = Waiting))
                     \<and> (\<exists>st2 r resp. run_resume (length (tasks st0)) st = Some st2
                        \<and> phase (tasks st2 ! length (tasks st0)) = Holding (Settled r)
                        \<and> bid_catch r = Some resp
                        \<and> status_code resp = checks_in_order n (JStr ''charlie'') (findAuctionById (heap st) (IdStr ''1''))
                        \<and> (\<forall>j < length (tasks st2).
                             j \<noteq> length (tasks st0) \<and> lock_key (tasks st2 ! j) = ''1'' \<longrightarrow>
                             run_resume j st2 = None \<and> run_continue j st2 = None
                             \<and> run_finally j st2 = None)))"
    using bid_validation_order [OF z a] by (simp only: fp if_True)
  then obtain n where n: "JNum (Fin 50) = JNum n"
    and body: "\<forall>es st. exec es st1 = Some st \<and> can_resume (length (tasks st0)) st \<longrightarrow>
                     lock_key (tasks st ! length (tasks st0)) = ''1''
                     \<and> (\<forall>j < length (tasks st).
                          j \<noteq> length (tasks st0) \<and> lock_key (tasks st ! j) = ''1'' \<longrightarrow>
                          (if j < length (tasks st0)
                           then is_Done (phase (tasks st ! j)) \<and> releases (tasks st ! j) = 1
                           else phase (tasks st ! j) = Waiting))
                     \<and> (\<exists>st2 r resp. run_resume (length (tasks st0)) st = Some st2
                        \<and> phase (tasks st2 ! length (tasks st0)) = Holding (Settled r)
                        \<and> bid_catch r = Some resp
                        \<and> status_code resp = checks_in_order n (JStr ''charlie'') (findAuctionById (heap st) (IdStr ''1''))
                        \<and> (\<forall>j < length (tasks st2).
                             j \<noteq> length (tasks st0) \<and> lock_key (tasks st2 ! j) = ''1'' \<longrightarrow>
                             run_resume j st2 = None \<and> run_continue j st2 = None
                             \<and> run_finally j st2 = None))"
    by blast
  have n50: "n = Fin 50" using n by simp
  from body c d0 have q: "\<forall>j < length (tasks st).
                          j \<noteq> length (tasks st0) \<and> lock_key (tasks st ! j) = ''1'' \<longrightarrow>
                          (if j < length (tasks st0)
                           then is_Done (phase (tasks st ! j)) \<and> releases (tasks st ! j) = 1
                           else phase (tasks st ! j) = Waiting)"
    and r: "\<exists>st2 r resp. run_resume (length (tasks st0)) st = Some st2
                        \<and> phase (tasks st2 ! length (tasks st0)) = Holding (Settled r)
                        \<and> bid_catch r = Some resp
                        \<and> status_code resp = checks_in_order n (JStr ''charlie'') (findAuctionById (heap st) (IdStr ''1''))"
    by blast+
  from q have "0 < length (tasks st) \<longrightarrow> 0 \<noteq> length (tasks st0) \<and> lock_key (tasks st ! 0) = ''1'' \<longrightarrow>
          (if 0 < length (tasks st0) then is_Done (phase (tasks st ! 0)) \<and> releases (tasks st ! 0) = 1
           else phase (tasks st ! 0) = Waiting)" by blast
  then have q0: "is_Done (phase (tasks st ! 0))" using l l0 k0 by simp
  have f: "\<exists>st2 r resp. run_resume 1 st = Some st2 \<and> phase (tasks st2 ! 1) = Holding (Settled r)
          \<and> bid_catch r = Some resp \<and> status_code resp = 409"
    using r unfolding l0 n50 e .
  have g: "post_bid ''1'' (JNum (Fin (-5))) (JStr ''charlie'') st0
       = (Replied \<lparr>status_code = 400, json = ErrorBody ''amount must be a positive number''\<rparr>, st0)"
    by (simp add: post_bid_def)
  show ?thesis
    by (rule exI [of _ st0], rule exI [of _ st1], rule exI [of _ st], intro conjI)
      (rule z a b c d k q0 f g)+
qed

end
